theory Spec2Isabelle
  imports Complex_Main "HOL-Library.Word"
begin

unbundle bit_operations_syntax

section \<open>JavaScript numbers and the 32-bit operators\<close>

text \<open>
  Every number the generator and the solver compute with is an integer of magnitude below
  \<open>2 ^ 53\<close>, where the arithmetic of doubles is exact; such numbers are modelled as \<open>int\<close>.
  The bitwise operators first convert their operands: \<open>ToInt32\<close> reduces modulo \<open>2 ^ 32\<close>
  into \<open>[-2 ^ 31, 2 ^ 31)\<close>, \<open>ToUint32\<close> into \<open>[0, 2 ^ 32)\<close>, and a shift uses only the low
  five bits of its count. Random draws, weights and target lengths are modelled as \<open>real\<close>.
\<close>

definition toInt32 :: "int \<Rightarrow> int" where
  "toInt32 x = (x + 2 ^ 31) mod 2 ^ 32 - 2 ^ 31"

definition toUint32 :: "int \<Rightarrow> int" where
  "toUint32 x = x mod 2 ^ 32"

definition shiftCount :: "int \<Rightarrow> nat" where
  "shiftCount n = nat (n mod 32)"

text \<open>\<^verbatim>\<open>a & b\<close>\<close>
definition js_and :: "int \<Rightarrow> int \<Rightarrow> int" where
  "js_and a b = toInt32 a AND toInt32 b"

text \<open>\<^verbatim>\<open>~a\<close>\<close>
definition js_not :: "int \<Rightarrow> int" where
  "js_not a = NOT (toInt32 a)"

text \<open>\<^verbatim>\<open>a << n\<close>\<close>
definition js_shl :: "int \<Rightarrow> int \<Rightarrow> int" where
  "js_shl a n = toInt32 (toInt32 a * 2 ^ shiftCount n)"

text \<open>\<^verbatim>\<open>a >> n\<close>, sign-propagating\<close>
definition js_shr :: "int \<Rightarrow> int \<Rightarrow> int" where
  "js_shr a n = toInt32 a div 2 ^ shiftCount n"

text \<open>\<^verbatim>\<open>a >>> n\<close>, zero-filling\<close>
definition js_ushr :: "int \<Rightarrow> int \<Rightarrow> int" where
  "js_ushr a n = toUint32 a div 2 ^ shiftCount n"

text \<open>
  One product of a draw decides which statement the assembler replaces; it is modelled as
  the code computes it, the exact product rounded to the nearest double, ties to even.
  \<open>ulp x\<close> is the spacing of the doubles at the magnitude \<open>x > 0\<close>: \<open>2 ^ (e - 52)\<close> where
  \<open>2 ^ e \<le> x < 2 ^ (e + 1)\<close>, the exponent \<open>e\<close> being kept within \<open>[-1022, 1023]\<close>, so that
  below \<open>2 ^ -1022\<close> the spacing is that of the subnormal numbers. Magnitudes from \<open>2 ^ 1024\<close>
  on, where a double overflows, do not occur. The products of a draw in the constructors of
  statement.js are taken exactly; what is proved of the constructors holds for every
  sequence of draws.
\<close>

definition roundTiesToEven :: "real \<Rightarrow> int" where
  "roundTiesToEven q =
     (let f = \<lfloor>q\<rfloor>
      in if q - of_int f < 1 / 2 then f
         else if 1 / 2 < q - of_int f then f + 1
         else if even f then f else f + 1)"

fun ulp_up :: "nat \<Rightarrow> real \<Rightarrow> real \<Rightarrow> real" where
  "ulp_up 0 x u = u"
| "ulp_up (Suc k) x u = (if x < 2 then u else ulp_up k (x / 2) (2 * u))"

fun ulp_down :: "nat \<Rightarrow> real \<Rightarrow> real \<Rightarrow> real" where
  "ulp_down 0 x u = u"
| "ulp_down (Suc k) x u = (if 1 \<le> x then u else ulp_down k (2 * x) (u / 2))"

definition ulp :: "real \<Rightarrow> real" where
  "ulp x = (if 1 \<le> x then ulp_up 1023 x (1 / 2 ^ 52) else ulp_down 1022 x (1 / 2 ^ 52))"

definition double :: "real \<Rightarrow> real" where
  "double x =
     (if x = 0 then 0
      else sgn x * (of_int (roundTiesToEven (\<bar>x\<bar> / ulp \<bar>x\<bar>)) * ulp \<bar>x\<bar>))"

section \<open>utility.js\<close>

text \<open>
  \<^verbatim>\<open>
  function popcount(x) {
    x -= (x & 0xAAAAAAAA) >>> 1;
    x = (x & 0x33333333) + ((x & 0xCCCCCCCC) >>> 2);
    x = ((x + (x >>> 4)) & 0x0F0F0F0F);
    return (x * 0x01010101) >>> 24;
  }
  \<close>
  The subtraction, the additions and the product are operations on numbers, not on 32-bit
  words; only the operands of \<open>&\<close> and \<open>>>>\<close> are truncated.
\<close>

definition popcount :: "int \<Rightarrow> int" where
  "popcount x =
     (let x1 = x - js_ushr (js_and x 0xAAAAAAAA) 1;
          x2 = js_and x1 0x33333333 + js_ushr (js_and x1 0xCCCCCCCC) 2;
          x3 = js_and (x2 + js_ushr x2 4) 0x0F0F0F0F
      in js_ushr (x3 * 0x01010101) 24)"

text \<open>
  The reference the bit count is compared with: look at the lowest bit, halve, and repeat
  once for each of the 32 positions.
\<close>

fun naive_count :: "nat \<Rightarrow> int \<Rightarrow> int" where
  "naive_count 0 x = 0"
| "naive_count (Suc n) x = x mod 2 + naive_count n (x div 2)"

definition naive_popcount :: "int \<Rightarrow> int" where
  "naive_popcount x = naive_count 32 x"

text \<open>
  \<^verbatim>\<open>hasDuplicate(array)\<close>: the loop over the array with the set of the elements seen so far.
\<close>

fun hasDuplicate_loop :: "'a set \<Rightarrow> 'a list \<Rightarrow> bool" where
  "hasDuplicate_loop previousElements [] = False"
| "hasDuplicate_loop previousElements (element # rest) =
     (if element \<in> previousElements then True
      else hasDuplicate_loop (insert element previousElements) rest)"

definition hasDuplicate :: "'a list \<Rightarrow> bool" where
  "hasDuplicate array = hasDuplicate_loop {} array"

section \<open>statement.js: contexts\<close>

text \<open>
  A context is a mutable object that statements and callers share by reference. The store
  holds every context object allocated so far; a reference is its position. \<open>new\<close> appends
  an object, an assignment to a field updates the object in place.
\<close>

record LogicalStatementContext =
  personCount :: int
  speakerIndex :: int
  isRoot :: bool
  shouldUseGa :: bool
  preconditionPredicate :: "bool option"
  complexityFactor :: real

type_synonym ref = nat
type_synonym store = "LogicalStatementContext list"

definition new_LogicalStatementContext :: "LogicalStatementContext \<Rightarrow> store \<Rightarrow> ref \<times> store" where
  "new_LogicalStatementContext c \<sigma> = (length \<sigma>, \<sigma> @ [c])"

text \<open>\<^verbatim>\<open>LogicalStatementContext.from(other)\<close>\<close>
definition LogicalStatementContext_from :: "ref \<Rightarrow> store \<Rightarrow> ref \<times> store" where
  "LogicalStatementContext_from other \<sigma> =
     new_LogicalStatementContext
       \<lparr>personCount = personCount (\<sigma> ! other),
        speakerIndex = speakerIndex (\<sigma> ! other),
        isRoot = isRoot (\<sigma> ! other),
        shouldUseGa = shouldUseGa (\<sigma> ! other),
        preconditionPredicate = preconditionPredicate (\<sigma> ! other),
        complexityFactor = complexityFactor (\<sigma> ! other)\<rparr> \<sigma>"

text \<open>The three field assignments the random constructors make.\<close>

definition set_isRoot :: "ref \<Rightarrow> bool \<Rightarrow> store \<Rightarrow> store" where
  "set_isRoot r v \<sigma> = \<sigma>[r := (\<sigma> ! r)\<lparr>isRoot := v\<rparr>]"

definition set_shouldUseGa :: "ref \<Rightarrow> bool \<Rightarrow> store \<Rightarrow> store" where
  "set_shouldUseGa r v \<sigma> = \<sigma>[r := (\<sigma> ! r)\<lparr>shouldUseGa := v\<rparr>]"

definition set_preconditionPredicate :: "ref \<Rightarrow> bool option \<Rightarrow> store \<Rightarrow> store" where
  "set_preconditionPredicate r v \<sigma> = \<sigma>[r := (\<sigma> ! r)\<lparr>preconditionPredicate := v\<rparr>]"

section \<open>statement.js: statements and their evaluation\<close>

text \<open>
  One constructor for each class that has instances. The first field of a constructor is the
  reference \<open>this.context\<close>; a \<open>BasicLogicalNotStatement\<close> takes the context of its
  substatement and so stores none of its own.
\<close>

datatype LogicalStatement =
    BasicLogicalNotStatement LogicalStatement
  | BasicLogicalOrStatement ref LogicalStatement LogicalStatement
  | BasicLogicalAndStatement ref LogicalStatement LogicalStatement
  | TrueFalseStatement ref int bool
  | TypeCountStatement ref int int
  | LogicalAndStatement ref LogicalStatement LogicalStatement
  | LogicalOrStatement ref LogicalStatement LogicalStatement
  | LogicalIfStatement ref LogicalStatement LogicalStatement

datatype error = TypeError | Error | RangeError

fun context_of :: "LogicalStatement \<Rightarrow> ref" where
  "context_of (BasicLogicalNotStatement substatement) = context_of substatement"
| "context_of (BasicLogicalOrStatement c _ _) = c"
| "context_of (BasicLogicalAndStatement c _ _) = c"
| "context_of (TrueFalseStatement c _ _) = c"
| "context_of (TypeCountStatement c _ _) = c"
| "context_of (LogicalAndStatement c _ _) = c"
| "context_of (LogicalOrStatement c _ _) = c"
| "context_of (LogicalIfStatement c _ _) = c"

text \<open>\<^verbatim>\<open>predicate()\<close>: \<open>null\<close> unless the class overrides it.\<close>

fun predicate :: "LogicalStatement \<Rightarrow> bool option" where
  "predicate (TrueFalseStatement _ _ isTruthTeller) = Some isTruthTeller"
| "predicate _ = None"

text \<open>
  \<^verbatim>\<open>subjectBitsArray()\<close>: the three \<open>Basic\<close> classes inherit the base method, which throws.
\<close>

fun subjectBitsArray :: "LogicalStatement \<Rightarrow> error + int list" where
  "subjectBitsArray (TrueFalseStatement _ subjectIndex _) = Inr [js_shl 1 subjectIndex]"
| "subjectBitsArray (TypeCountStatement _ subjectBits _) = Inr [subjectBits]"
| "subjectBitsArray (LogicalAndStatement _ substatement1 substatement2) =
     (case subjectBitsArray substatement1 of Inl e \<Rightarrow> Inl e
      | Inr a1 \<Rightarrow> (case subjectBitsArray substatement2 of Inl e \<Rightarrow> Inl e | Inr a2 \<Rightarrow> Inr (a1 @ a2)))"
| "subjectBitsArray (LogicalOrStatement _ substatement1 substatement2) =
     (case subjectBitsArray substatement1 of Inl e \<Rightarrow> Inl e
      | Inr a1 \<Rightarrow> (case subjectBitsArray substatement2 of Inl e \<Rightarrow> Inl e | Inr a2 \<Rightarrow> Inr (a1 @ a2)))"
| "subjectBitsArray (LogicalIfStatement _ antecedent consequent) =
     (case subjectBitsArray antecedent of Inl e \<Rightarrow> Inl e
      | Inr a1 \<Rightarrow> (case subjectBitsArray consequent of Inl e \<Rightarrow> Inl e | Inr a2 \<Rightarrow> Inr (a1 @ a2)))"
| "subjectBitsArray _ = Inl TypeError"

fun isTrueOn :: "LogicalStatement \<Rightarrow> int \<Rightarrow> bool" where
  "isTrueOn (BasicLogicalNotStatement substatement) peopleTypeBits =
     (\<not> isTrueOn substatement peopleTypeBits)"
| "isTrueOn (BasicLogicalOrStatement _ substatement1 substatement2) peopleTypeBits =
     (isTrueOn substatement1 peopleTypeBits \<or> isTrueOn substatement2 peopleTypeBits)"
| "isTrueOn (BasicLogicalAndStatement _ substatement1 substatement2) peopleTypeBits =
     (isTrueOn substatement1 peopleTypeBits \<and> isTrueOn substatement2 peopleTypeBits)"
| "isTrueOn (TrueFalseStatement _ subjectIndex isTruthTeller) peopleTypeBits =
     (let subjectBit = js_and (js_shr peopleTypeBits subjectIndex) 1
      in (subjectBit \<noteq> 0) = isTruthTeller)"
| "isTrueOn (TypeCountStatement _ subjectBits liarCountBits) peopleTypeBits =
     (let liarCount = popcount (js_and subjectBits (js_not peopleTypeBits));
          liarCountBit = js_and (js_shr liarCountBits liarCount) 1
      in liarCountBit \<noteq> 0)"
| "isTrueOn (LogicalAndStatement _ substatement1 substatement2) peopleTypeBits =
     (isTrueOn substatement1 peopleTypeBits \<and> isTrueOn substatement2 peopleTypeBits)"
| "isTrueOn (LogicalOrStatement _ substatement1 substatement2) peopleTypeBits =
     (isTrueOn substatement1 peopleTypeBits \<or> isTrueOn substatement2 peopleTypeBits)"
| "isTrueOn (LogicalIfStatement _ antecedent consequent) peopleTypeBits =
     (\<not> isTrueOn antecedent peopleTypeBits \<or> isTrueOn consequent peopleTypeBits)"

definition isConsistentOn :: "store \<Rightarrow> LogicalStatement \<Rightarrow> int \<Rightarrow> bool" where
  "isConsistentOn \<sigma> s peopleTypeBits =
     (let speakerBit = js_and (js_shr peopleTypeBits (speakerIndex (\<sigma> ! context_of s))) 1
      in isTrueOn s peopleTypeBits = (speakerBit \<noteq> 0))"

text \<open>
  \<^verbatim>\<open>isTautology()\<close>: the loop \<^verbatim>\<open>for (p = 0; p < (1 << personCount); p++)\<close>, left at the
  first assignment on which the statement is false.
\<close>

function isTautology_loop :: "LogicalStatement \<Rightarrow> int \<Rightarrow> int \<Rightarrow> bool" where
  "isTautology_loop s bound peopleTypeBits =
     (if peopleTypeBits < bound
      then (if \<not> isTrueOn s peopleTypeBits then False
            else isTautology_loop s bound (peopleTypeBits + 1))
      else True)"
  by pat_completeness auto
termination
  by (relation "measure (\<lambda>(s, bound, p). nat (bound - p))") auto

declare isTautology_loop.simps [simp del]

definition isTautology :: "store \<Rightarrow> LogicalStatement \<Rightarrow> bool" where
  "isTautology \<sigma> s = isTautology_loop s (js_shl 1 (personCount (\<sigma> ! context_of s))) 0"

text \<open>\<^verbatim>\<open>this.implies(anotherStatement)\<close>\<close>
definition implies_stmt :: "store \<Rightarrow> LogicalStatement \<Rightarrow> LogicalStatement \<Rightarrow> bool" where
  "implies_stmt \<sigma> this anotherStatement =
     isTautology \<sigma>
       (BasicLogicalOrStatement (context_of this) (BasicLogicalNotStatement this) anotherStatement)"

section \<open>script.js: the solver\<close>

text \<open>
  \<^verbatim>\<open>solutionsTo(statements)\<close>: the inner loop stops at the first statement that is not
  consistent; the outer loop runs over \<^verbatim>\<open>0 <= peopleTypeBits < (1 << statements.length)\<close>.
\<close>

fun allConsistent :: "store \<Rightarrow> LogicalStatement list \<Rightarrow> int \<Rightarrow> bool" where
  "allConsistent \<sigma> [] peopleTypeBits = True"
| "allConsistent \<sigma> (s # rest) peopleTypeBits =
     (if \<not> isConsistentOn \<sigma> s peopleTypeBits then False
      else allConsistent \<sigma> rest peopleTypeBits)"

function solutionsTo_loop :: "store \<Rightarrow> LogicalStatement list \<Rightarrow> int \<Rightarrow> int \<Rightarrow> int list" where
  "solutionsTo_loop \<sigma> statements bound peopleTypeBits =
     (if peopleTypeBits < bound
      then (if allConsistent \<sigma> statements peopleTypeBits
            then peopleTypeBits # solutionsTo_loop \<sigma> statements bound (peopleTypeBits + 1)
            else solutionsTo_loop \<sigma> statements bound (peopleTypeBits + 1))
      else [])"
  by pat_completeness auto
termination
  by (relation "measure (\<lambda>(\<sigma>, statements, bound, p). nat (bound - p))") auto

declare solutionsTo_loop.simps [simp del]

definition solutionsTo :: "store \<Rightarrow> LogicalStatement list \<Rightarrow> int list" where
  "solutionsTo \<sigma> statements =
     (let personCount = int (length statements)
      in solutionsTo_loop \<sigma> statements (js_shl 1 personCount) 0)"

section \<open>statement.js: random construction\<close>

text \<open>
  The random constructors run in a world: the store of context objects and the sequence of
  the values that the coming calls of \<^verbatim>\<open>Math.random()\<close> return. An outcome is \<open>None\<close> when
  the construction has not returned within the draws (or the iteration budget) it was
  given, \<open>Inl\<close> when it threw, and \<open>Inr\<close> with the value it returned otherwise.
\<close>

type_synonym world = "store \<times> real list"
type_synonym 'a outcome = "((error + 'a) \<times> world) option"

definition Math_random :: "world \<Rightarrow> real outcome" where
  "Math_random w = (case snd w of [] \<Rightarrow> None | r # rest \<Rightarrow> Some (Inr r, (fst w, rest)))"

text \<open>Sequencing: a thrown error and a construction that has not returned both propagate.\<close>

definition andThen :: "'a outcome \<Rightarrow> ('a \<Rightarrow> world \<Rightarrow> 'b outcome) \<Rightarrow> 'b outcome" where
  "andThen m f =
     (case m of None \<Rightarrow> None
      | Some (Inl e, w) \<Rightarrow> Some (Inl e, w)
      | Some (Inr x, w) \<Rightarrow> f x w)"

datatype StatementClass = TrueFalse | TypeCount | LogicalAnd | LogicalOr | LogicalIf

fun nestingLayer :: "StatementClass \<Rightarrow> nat" where
  "nestingLayer TrueFalse = 0"
| "nestingLayer TypeCount = 0"
| "nestingLayer LogicalAnd = 1"
| "nestingLayer LogicalOr = 1"
| "nestingLayer LogicalIf = 2"

text \<open>The class of an instance; the \<open>Basic\<close> classes are not registered and have none.\<close>

fun class_of :: "LogicalStatement \<Rightarrow> StatementClass option" where
  "class_of (TrueFalseStatement _ _ _) = Some TrueFalse"
| "class_of (TypeCountStatement _ _ _) = Some TypeCount"
| "class_of (LogicalAndStatement _ _ _) = Some LogicalAnd"
| "class_of (LogicalOrStatement _ _ _) = Some LogicalOr"
| "class_of (LogicalIfStatement _ _ _) = Some LogicalIf"
| "class_of _ = None"

text \<open>
  The registry after the one call of \<^verbatim>\<open>addStatementClasses\<close> at the end of statement.js.
\<close>

definition childStatementClasses :: "StatementClass list" where
  "childStatementClasses = [TrueFalse, TypeCount, LogicalAnd, LogicalOr, LogicalIf]"

text \<open>The parameter \<^verbatim>\<open>maxLayer\<close>: a number, or its default \<^verbatim>\<open>Infinity\<close>.\<close>

datatype maxLayer = Layer int | Infinity

fun layer_le :: "nat \<Rightarrow> maxLayer \<Rightarrow> bool" where
  "layer_le l (Layer m) = (int l \<le> m)"
| "layer_le l Infinity = True"

text \<open>\<^verbatim>\<open>TrueFalseStatement.random(context)\<close>\<close>
definition TrueFalseStatement_random :: "ref \<Rightarrow> world \<Rightarrow> LogicalStatement outcome" where
  "TrueFalseStatement_random context w =
     andThen (Math_random w) (\<lambda>r1 w1.
       let subjectIndex = \<lfloor>r1 * of_int (personCount (fst w1 ! context))\<rfloor>
       in andThen (Math_random w1) (\<lambda>r2 w2.
            let isTruthTeller = (r2 < 1 / 2)
            in Some (Inr (TrueFalseStatement context subjectIndex isTruthTeller), w2)))"

text \<open>
  \<^verbatim>\<open>TypeCountStatement.random(context)\<close>: the \<open>do ... while\<close> loop draws subject sets
  until one has more than one member; each iteration takes one draw.
\<close>

fun drawSubjectBits :: "int \<Rightarrow> real list \<Rightarrow> (int \<times> real list) option" where
  "drawSubjectBits count [] = None"
| "drawSubjectBits count (r # rest) =
     (let subjectBits = \<lfloor>r * of_int (js_shl 1 count)\<rfloor>
      in if popcount subjectBits \<le> 1 then drawSubjectBits count rest
         else Some (subjectBits, rest))"

definition TypeCountStatement_random :: "ref \<Rightarrow> world \<Rightarrow> LogicalStatement outcome" where
  "TypeCountStatement_random context w =
     (case drawSubjectBits (personCount (fst w ! context)) (snd w) of
        None \<Rightarrow> None
      | Some (subjectBits, rest) \<Rightarrow>
          let subjectCount = popcount subjectBits
          in andThen (Math_random (fst w, rest)) (\<lambda>r w1.
               let liarCountBits = \<lfloor>r * of_int (js_shl 1 (subjectCount + 1) - 2)\<rfloor> + 1
               in Some (Inr (TypeCountStatement context subjectBits liarCountBits), w1)))"

text \<open>
  The weighted choice in \<^verbatim>\<open>randomStatement\<close>: the running sums of the weights, and the
  first index whose running sum exceeds \<open>r\<close> (the last index when there is none).
\<close>

fun partialSums :: "real \<Rightarrow> real list \<Rightarrow> real list" where
  "partialSums weightSum [] = []"
| "partialSums weightSum (weight # rest) = (weightSum + weight) # partialSums (weightSum + weight) rest"

fun firstBelow :: "real \<Rightarrow> real list \<Rightarrow> nat \<Rightarrow> nat option" where
  "firstBelow r [] i = None"
| "firstBelow r (p # rest) i = (if r < p then Some i else firstBelow r rest (Suc i))"

definition chooseIndex :: "real \<Rightarrow> real list \<Rightarrow> nat \<Rightarrow> nat" where
  "chooseIndex r partialWeightSums n =
     (case firstBelow r partialWeightSums 0 of Some i \<Rightarrow> i | None \<Rightarrow> n - 1)"

text \<open>
  \<^verbatim>\<open>randomStatement\<close> and the three compound constructors call each other. The first
  argument bounds the number of nested loop iterations; the check that some class
  qualifies comes before any iteration and does not depend on it.
\<close>

function randomStatement :: "nat \<Rightarrow> ref \<Rightarrow> maxLayer \<Rightarrow> world \<Rightarrow> LogicalStatement outcome"
  and randomStatement_loop ::
    "nat \<Rightarrow> StatementClass list \<Rightarrow> real list \<Rightarrow> real \<Rightarrow> ref \<Rightarrow> world \<Rightarrow> LogicalStatement outcome"
  and LogicalAndStatement_random :: "nat \<Rightarrow> ref \<Rightarrow> world \<Rightarrow> LogicalStatement outcome"
  and LogicalOrStatement_random :: "nat \<Rightarrow> ref \<Rightarrow> world \<Rightarrow> LogicalStatement outcome"
  and LogicalIfStatement_random :: "nat \<Rightarrow> ref \<Rightarrow> world \<Rightarrow> LogicalStatement outcome"
where
  "randomStatement n context maxLayer w =
     (let classChoices = filter (\<lambda>c. layer_le (nestingLayer c) maxLayer) childStatementClasses
      in if length classChoices = 0 then Some (Inl Error, w)
         else
           let weights = map (\<lambda>c. complexityFactor (fst w ! context) ^ nestingLayer c) classChoices;
               weightSum = foldl (+) 0 weights;
               partialWeightSums = partialSums 0 weights
           in randomStatement_loop n classChoices partialWeightSums weightSum context w)"
| "randomStatement_loop 0 classChoices partialWeightSums weightSum context w = None"
| "randomStatement_loop (Suc n) classChoices partialWeightSums weightSum context w =
     andThen (Math_random w) (\<lambda>rnd w1.
       let r = rnd * weightSum;
           choiceIndex = chooseIndex r partialWeightSums (length classChoices);
           classChoice = classChoices ! choiceIndex
       in andThen
            (case classChoice of
               TrueFalse \<Rightarrow> TrueFalseStatement_random context w1
             | TypeCount \<Rightarrow> TypeCountStatement_random context w1
             | LogicalAnd \<Rightarrow> LogicalAndStatement_random n context w1
             | LogicalOr \<Rightarrow> LogicalOrStatement_random n context w1
             | LogicalIf \<Rightarrow> LogicalIfStatement_random n context w1)
            (\<lambda>randomStatement w2.
               case subjectBitsArray randomStatement of
                 Inl e \<Rightarrow> Some (Inl e, w2)
               | Inr array \<Rightarrow>
                   if hasDuplicate array
                   then randomStatement_loop n classChoices partialWeightSums weightSum context w2
                   else Some (Inr randomStatement, w2)))"
| "LogicalAndStatement_random 0 context w = None"
| "LogicalAndStatement_random (Suc n) context w =
     (let (substatementContext1, \<sigma>1) = LogicalStatementContext_from context (fst w);
          \<sigma>2 = set_isRoot substatementContext1 False \<sigma>1
      in andThen (randomStatement n substatementContext1 (Layer 0) (\<sigma>2, snd w)) (\<lambda>substatement1 w3.
           let (substatementContext2, \<sigma>4) = LogicalStatementContext_from substatementContext1 (fst w3);
               \<sigma>5 = set_preconditionPredicate substatementContext2 (predicate substatement1) \<sigma>4
           in andThen (randomStatement n substatementContext2 (Layer 0) (\<sigma>5, snd w3)) (\<lambda>substatement2 w6.
                let newStatement = LogicalAndStatement context substatement1 substatement2
                in if implies_stmt (fst w6) substatement1 newStatement
                      \<or> implies_stmt (fst w6) substatement2 newStatement
                      \<or> isTautology (fst w6) (BasicLogicalNotStatement newStatement)
                   then LogicalAndStatement_random n context w6
                   else Some (Inr newStatement, w6))))"
| "LogicalOrStatement_random 0 context w = None"
| "LogicalOrStatement_random (Suc n) context w =
     (let (substatementContext, \<sigma>1) = LogicalStatementContext_from context (fst w);
          \<sigma>2 = set_isRoot substatementContext False \<sigma>1;
          \<sigma>3 = set_shouldUseGa substatementContext True \<sigma>2;
          \<sigma>4 = set_preconditionPredicate substatementContext None \<sigma>3
      in andThen (randomStatement n substatementContext (Layer 0) (\<sigma>4, snd w)) (\<lambda>substatement1 w5.
           andThen (randomStatement n substatementContext (Layer 0) w5) (\<lambda>substatement2 w6.
             let newStatement = LogicalOrStatement context substatement1 substatement2
             in if implies_stmt (fst w6) newStatement substatement1
                   \<or> implies_stmt (fst w6) newStatement substatement2
                   \<or> isTautology (fst w6) newStatement
                then LogicalOrStatement_random n context w6
                else Some (Inr newStatement, w6))))"
| "LogicalIfStatement_random 0 context w = None"
| "LogicalIfStatement_random (Suc n) context w =
     (let (antecedentContext, \<sigma>1) = LogicalStatementContext_from context (fst w);
          \<sigma>2 = set_isRoot antecedentContext False \<sigma>1;
          \<sigma>3 = set_shouldUseGa antecedentContext True \<sigma>2
      in andThen (randomStatement n antecedentContext (Layer 1) (\<sigma>3, snd w)) (\<lambda>antecedent w4.
           let (consequentContext, \<sigma>5) = LogicalStatementContext_from antecedentContext (fst w4);
               \<sigma>6 = set_shouldUseGa consequentContext (shouldUseGa (\<sigma>5 ! context)) \<sigma>5;
               \<sigma>7 = set_preconditionPredicate consequentContext (predicate antecedent) \<sigma>6
           in andThen (randomStatement n consequentContext (Layer 1) (\<sigma>7, snd w4)) (\<lambda>consequent w8.
                let newStatement = LogicalIfStatement context antecedent consequent
                in if implies_stmt (fst w8) newStatement (BasicLogicalNotStatement antecedent)
                      \<or> implies_stmt (fst w8) newStatement consequent
                      \<or> isTautology (fst w8) newStatement
                   then LogicalIfStatement_random n context w8
                   else Some (Inr newStatement, w8))))"
  by pat_completeness auto
termination
  by (relation "measure (\<lambda>x. case x of
        Inl (Inl (n, _)) \<Rightarrow> 2 * n + 1
      | Inl (Inr (n, _)) \<Rightarrow> 2 * n
      | Inr (Inl (n, _)) \<Rightarrow> 2 * n
      | Inr (Inr (Inl (n, _))) \<Rightarrow> 2 * n
      | Inr (Inr (Inr (n, _))) \<Rightarrow> 2 * n)") auto

declare randomStatement.simps [simp del]
declare randomStatement_loop.simps [simp del]
declare LogicalAndStatement_random.simps [simp del]
declare LogicalOrStatement_random.simps [simp del]
declare LogicalIfStatement_random.simps [simp del]

section \<open>statement.js: rendering\<close>

text \<open>
  A JavaScript string is the list of its UTF-16 code units, which is what \<^verbatim>\<open>.length\<close> counts.
  The literals of statement.js are given by their code units.
\<close>

type_synonym js_string = "int list"

definition lit_san :: js_string where
  "lit_san = [0x3055, 0x3093]"

definition lit_truthTeller :: js_string where
  "lit_truthTeller = [0x6B63, 0x76F4, 0x8005]"

definition lit_liar :: js_string where
  "lit_liar = [0x5618, 0x3064, 0x304D]"

definition lit_ga :: js_string where
  "lit_ga = [0x304C]"

definition lit_ha :: js_string where
  "lit_ha = [0x306F]"

definition lit_watashi :: js_string where
  "lit_watashi = [0x79C1]"

definition lit_mo :: js_string where
  "lit_mo = [0x3082]"

definition lit_desu :: js_string where
  "lit_desu = [0x3067, 0x3059, 0x3002]"

definition lit_kono :: js_string where
  "lit_kono = [0x3053, 0x306E]"

definition lit_nin :: js_string where
  "lit_nin = [0x4EBA]"

definition lit_watashi_to :: js_string where
  "lit_watashi_to = [0x79C1, 0x3068]"

definition lit_to :: js_string where
  "lit_to = [0x3068]"

definition lit_comma :: js_string where
  "lit_comma = [0x3001]"

definition lit_zenin :: js_string where
  "lit_zenin = [0x5168, 0x54E1]"

definition lit_no :: js_string where
  "lit_no = [0x306E]"

definition lit_nin_tomo :: js_string where
  "lit_nin_tomo = [0x4EBA, 0x3068, 0x3082]"

definition lit_nouchi :: js_string where
  "lit_nouchi = [0x306E, 0x3046, 0x3061, 0x3001, 0x5618, 0x3064, 0x304D, 0x306E, 0x4EBA, 0x6570]"

definition lit_nin_ika :: js_string where
  "lit_nin_ika = [0x4EBA, 0x4EE5, 0x4E0B]"

definition lit_nin_ijou :: js_string where
  "lit_nin_ijou = [0x4EBA, 0x4EE5, 0x4E0A]"

definition lit_ka :: js_string where
  "lit_ka = [0x304B]"

definition lit_de :: js_string where
  "lit_de = [0x3067, 0x3001]"

definition lit_ka_mataha :: js_string where
  "lit_ka_mataha = [0x304B, 0x3001, 0x307E, 0x305F, 0x306F]"

definition lit_moshi :: js_string where
  "lit_moshi = [0x3082, 0x3057, 0x3001]"

definition lit_naraba :: js_string where
  "lit_naraba = [0x306A, 0x3089, 0x3070, 0x3001]"

text \<open>
  A number in a template literal: its decimal digits, with a minus sign when negative
  (the numbers rendered are integers far below \<open>10 ^ 21\<close>, where no exponent is written).
\<close>

function decimal :: "nat \<Rightarrow> js_string" where
  "decimal n = (if n < 10 then [48 + int n] else decimal (n div 10) @ [48 + int (n mod 10)])"
  by pat_completeness auto
termination
  by (relation "measure id") auto

declare decimal.simps [simp del]

definition numberToString :: "int \<Rightarrow> js_string" where
  "numberToString i = (if i < 0 then 45 # decimal (nat (- i)) else decimal (nat i))"

text \<open>\<^verbatim>\<open>array.join(separator)\<close> of strings.\<close>

fun join :: "js_string list \<Rightarrow> js_string \<Rightarrow> js_string" where
  "join [] separator = []"
| "join [x] separator = x"
| "join (x # y # rest) separator = x @ separator @ join (y # rest) separator"

text \<open>
  \<^verbatim>\<open>[...Array(n).keys()]\<close>: the indices below \<open>n\<close>; \<open>Array(n)\<close> throws a RangeError unless \<open>n\<close> is
  an integer in \<open>[0, 2 ^ 32)\<close>.
\<close>

definition Array_keys :: "int \<Rightarrow> error + int list" where
  "Array_keys n = (if 0 \<le> n \<and> n < 2 ^ 32 then Inr (map int [0..<nat n]) else Inl RangeError)"

text \<open>\<^verbatim>\<open>String.fromCharCode(65 + personIndex) + 'san'\<close>; the code is taken modulo \<open>2 ^ 16\<close>.\<close>

definition personNameFromIndex :: "int \<Rightarrow> js_string" where
  "personNameFromIndex personIndex = (65 + personIndex) mod 65536 # lit_san"

definition personTypeStringFromBool :: "bool \<Rightarrow> js_string" where
  "personTypeStringFromBool isTruthTeller = (if isTruthTeller then lit_truthTeller else lit_liar)"

definition particle :: "LogicalStatementContext \<Rightarrow> js_string" where
  "particle c = (if shouldUseGa c then lit_ga else lit_ha)"

text \<open>\<^verbatim>\<open>TypeCountStatement.sentence()\<close>, in the three pieces the method appends.\<close>

definition subjectsPhrase :: "LogicalStatementContext \<Rightarrow> int \<Rightarrow> error + js_string" where
  "subjectsPhrase c subjectBits =
     (let subjectCount = popcount subjectBits
      in if subjectBits = js_shl 1 (personCount c) - 1
         then Inr (lit_kono @ numberToString (personCount c) @ lit_nin)
         else
           let me = (if js_and subjectBits (js_shl 1 (speakerIndex c)) \<noteq> 0 then lit_watashi_to else [])
           in case Array_keys (personCount c) of
                Inl e \<Rightarrow> Inl e
              | Inr keys \<Rightarrow>
                  let subjectIndicesExceptSpeaker =
                        filter (\<lambda>i. i \<noteq> speakerIndex c \<and> js_and subjectBits (js_shl 1 i) \<noteq> 0) keys
                  in Inr (me @ join (map personNameFromIndex subjectIndicesExceptSpeaker)
                                 (if subjectCount = 2 then lit_to else lit_comma)))"

definition countPhrase :: "LogicalStatementContext \<Rightarrow> int \<Rightarrow> int \<Rightarrow> error + js_string" where
  "countPhrase c subjectBits liarCountBits =
     (let subjectCount = popcount subjectBits
      in if liarCountBits = 1 \<or> liarCountBits = js_shl 1 subjectCount
         then Inr ((if subjectCount = personCount c then particle c @ lit_zenin
                    else lit_no @ numberToString subjectCount @ lit_nin_tomo)
                   @ personTypeStringFromBool (liarCountBits = 1))
         else
           let liarCountBitsFlipped = js_and (js_not liarCountBits) (js_shl 1 (subjectCount + 1) - 1)
           in if js_and liarCountBits (liarCountBits + 1) = 0
              then Inr (lit_nouchi @ particle c @ numberToString (popcount liarCountBits - 1) @ lit_nin_ika)
              else if js_and liarCountBitsFlipped (liarCountBitsFlipped + 1) = 0
              then Inr (lit_nouchi @ particle c @ numberToString (popcount liarCountBitsFlipped) @ lit_nin_ijou)
              else case Array_keys (subjectCount + 1) of
                     Inl e \<Rightarrow> Inl e
                   | Inr keys \<Rightarrow>
                       Inr (lit_nouchi @ particle c
                            @ join (map (\<lambda>i. numberToString i @ lit_nin)
                                      (filter (\<lambda>i. js_and liarCountBits (js_shl 1 i) \<noteq> 0) keys))
                                   lit_ka))"

definition ending :: "LogicalStatementContext \<Rightarrow> js_string" where
  "ending c = (if isRoot c then lit_desu else [])"

text \<open>
  \<^verbatim>\<open>sentence()\<close>. The three \<open>Basic\<close> classes inherit the base method, which throws.
\<close>

fun sentence :: "store \<Rightarrow> LogicalStatement \<Rightarrow> error + js_string" where
  "sentence \<sigma> (TrueFalseStatement c subjectIndex isTruthTeller) =
     Inr ((if subjectIndex = speakerIndex (\<sigma> ! c) then lit_watashi
           else personNameFromIndex subjectIndex)
          @ (if preconditionPredicate (\<sigma> ! c) = Some isTruthTeller then lit_mo
             else particle (\<sigma> ! c))
          @ personTypeStringFromBool isTruthTeller
          @ ending (\<sigma> ! c))"
| "sentence \<sigma> (TypeCountStatement c subjectBits liarCountBits) =
     (case subjectsPhrase (\<sigma> ! c) subjectBits of
        Inl e \<Rightarrow> Inl e
      | Inr subjects \<Rightarrow>
          (case countPhrase (\<sigma> ! c) subjectBits liarCountBits of
             Inl e \<Rightarrow> Inl e
           | Inr count \<Rightarrow> Inr (subjects @ count @ ending (\<sigma> ! c))))"
| "sentence \<sigma> (LogicalAndStatement c substatement1 substatement2) =
     (case sentence \<sigma> substatement1 of
        Inl e \<Rightarrow> Inl e
      | Inr s1 \<Rightarrow>
          (case sentence \<sigma> substatement2 of
             Inl e \<Rightarrow> Inl e
           | Inr s2 \<Rightarrow> Inr (s1 @ lit_de @ s2 @ ending (\<sigma> ! c))))"
| "sentence \<sigma> (LogicalOrStatement c substatement1 substatement2) =
     (case sentence \<sigma> substatement1 of
        Inl e \<Rightarrow> Inl e
      | Inr s1 \<Rightarrow>
          (case sentence \<sigma> substatement2 of
             Inl e \<Rightarrow> Inl e
           | Inr s2 \<Rightarrow> Inr (s1 @ lit_ka_mataha @ s2 @ ending (\<sigma> ! c))))"
| "sentence \<sigma> (LogicalIfStatement c antecedent consequent) =
     (case sentence \<sigma> antecedent of
        Inl e \<Rightarrow> Inl e
      | Inr s1 \<Rightarrow>
          (case sentence \<sigma> consequent of
             Inl e \<Rightarrow> Inl e
           | Inr s2 \<Rightarrow> Inr (lit_moshi @ s1 @ lit_naraba @ s2 @ ending (\<sigma> ! c))))"
| "sentence \<sigma> _ = Inl TypeError"

section \<open>script.js: the puzzle assembler\<close>

text \<open>
  \<^verbatim>\<open>interpolatedSentenceLength(personCount, t)\<close>, with \<open>Math.pow(2, 2 * t)\<close> as the real power.
\<close>

definition interpolatedSentenceLength :: "int \<Rightarrow> real \<Rightarrow> real" where
  "interpolatedSentenceLength count t =
     (let sentenceLengthRangeStart = 11 * of_int count;
          sentenceLengthRangeEnd = 100 * (of_int count - 1);
          interpolationParameter = (2 powr (2 * t) - 1) / 3
      in sentenceLengthRangeStart
         + interpolationParameter * (sentenceLengthRangeEnd - sentenceLengthRangeStart))"

text \<open>
  The two bounds that \<^verbatim>\<open>generateButton.onclick\<close> computes from the person count and the
  complexity selector. The upper bound is a number or \<open>Infinity\<close>.
\<close>

datatype length_bound = Finite real | PlusInfinity

fun le_bound :: "real \<Rightarrow> length_bound \<Rightarrow> bool" where
  "le_bound x (Finite m) = (x \<le> m)"
| "le_bound x PlusInfinity = True"

definition minSentenceLength :: "int \<Rightarrow> int \<Rightarrow> real" where
  "minSentenceLength count sentenceComplexity =
     (if sentenceComplexity = 0 then 0
      else interpolatedSentenceLength count (of_int sentenceComplexity / 5))"

definition maxSentenceLength :: "int \<Rightarrow> int \<Rightarrow> length_bound" where
  "maxSentenceLength count sentenceComplexity =
     (if sentenceComplexity = 4 then PlusInfinity
      else Finite (interpolatedSentenceLength count ((of_int sentenceComplexity + 1) / 5)))"

text \<open>
  The three array variables of the handler that the loop works on: \<^verbatim>\<open>statements\<close>,
  \<^verbatim>\<open>sentences\<close> and \<^verbatim>\<open>solutions\<close>.
\<close>

record puzzle =
  statements_var :: "LogicalStatement list"
  sentences_var :: "js_string list"
  solutions_var :: "int list"

definition sumOfSentenceLengths :: "js_string list \<Rightarrow> int" where
  "sumOfSentenceLengths texts = foldl (\<lambda>sum text. sum + int (length text)) 0 texts"

text \<open>The test at the head of the \<open>while (true)\<close> loop: when it holds the loop is left.\<close>

definition accepted :: "real \<Rightarrow> length_bound \<Rightarrow> puzzle \<Rightarrow> bool" where
  "accepted lo hi p =
     (length (solutions_var p) = 1
      \<and> lo \<le> of_int (sumOfSentenceLengths (sentences_var p))
      \<and> le_bound (of_int (sumOfSentenceLengths (sentences_var p))) hi)"

text \<open>
  The rest of the loop body: one speaker is drawn, the statement at that index is generated
  anew and rendered, and the puzzle is solved again. The index is the floor of the product
  of the draw and the person count, a double. An index outside \<open>statementContexts\<close>
  reads \<open>undefined\<close>, and \<open>randomStatement\<close> then throws a TypeError at
  \<^verbatim>\<open>context.complexityFactor\<close>, before any draw. The arrays \<open>statements\<close> and \<open>sentences\<close> are
  filled by a loop with the bound of \<open>statementContexts\<close>, so an index within the one is
  within the others and the two assignments replace an element.
\<close>

definition regenerate :: "nat \<Rightarrow> int \<Rightarrow> ref list \<Rightarrow> puzzle \<Rightarrow> world \<Rightarrow> puzzle outcome" where
  "regenerate n count statementContexts p w =
     andThen (Math_random w) (\<lambda>r w1.
       let randomSpeakerIndex = \<lfloor>double (r * of_int count)\<rfloor>
       in if 0 \<le> randomSpeakerIndex \<and> randomSpeakerIndex < int (length statementContexts)
          then andThen (randomStatement n (statementContexts ! nat randomSpeakerIndex) Infinity w1)
                 (\<lambda>statement w2.
                    case sentence (fst w2) statement of
                      Inl e \<Rightarrow> Some (Inl e, w2)
                    | Inr text \<Rightarrow>
                        let statements = (statements_var p)[nat randomSpeakerIndex := statement];
                            sentences = (sentences_var p)[nat randomSpeakerIndex := text]
                        in Some (Inr \<lparr>statements_var = statements, sentences_var = sentences,
                                      solutions_var = solutionsTo (fst w2) statements\<rparr>, w2))
          else Some (Inl TypeError, w1))"

fun generate_loop ::
  "nat \<Rightarrow> int \<Rightarrow> real \<Rightarrow> length_bound \<Rightarrow> ref list \<Rightarrow> puzzle \<Rightarrow> world \<Rightarrow> puzzle outcome" where
  "generate_loop n count lo hi statementContexts p w =
     (if accepted lo hi p then Some (Inr p, w)
      else case n of
             0 \<Rightarrow> None
           | Suc m \<Rightarrow>
               andThen (regenerate m count statementContexts p w)
                 (\<lambda>p' w'. generate_loop m count lo hi statementContexts p' w'))"

declare generate_loop.simps [simp del]

text \<open>
  The part of the handler before the loop: the contexts of the speakers, one statement and
  its sentence for each, and the first call of the solver.
\<close>

fun newContexts :: "int \<Rightarrow> real \<Rightarrow> nat \<Rightarrow> nat \<Rightarrow> store \<Rightarrow> ref list \<times> store" where
  "newContexts count factor speaker 0 \<sigma> = ([], \<sigma>)"
| "newContexts count factor speaker (Suc k) \<sigma> =
     (let (r, \<sigma>1) = new_LogicalStatementContext
            \<lparr>personCount = count, speakerIndex = int speaker, isRoot = True, shouldUseGa = False,
             preconditionPredicate = None, complexityFactor = factor\<rparr> \<sigma>;
          (rs, \<sigma>2) = newContexts count factor (Suc speaker) k \<sigma>1
      in (r # rs, \<sigma>2))"

fun firstStatements ::
  "nat \<Rightarrow> ref list \<Rightarrow> world \<Rightarrow> (LogicalStatement list \<times> js_string list) outcome" where
  "firstStatements n [] w = Some (Inr ([], []), w)"
| "firstStatements n (c # cs) w =
     andThen (randomStatement n c Infinity w) (\<lambda>statement w1.
       case sentence (fst w1) statement of
         Inl e \<Rightarrow> Some (Inl e, w1)
       | Inr text \<Rightarrow>
           andThen (firstStatements n cs w1) (\<lambda>(ss, ts) w2. Some (Inr (statement # ss, text # ts), w2)))"

definition generatePuzzle :: "nat \<Rightarrow> int \<Rightarrow> int \<Rightarrow> world \<Rightarrow> puzzle outcome" where
  "generatePuzzle n count sentenceComplexity w =
     (let lo = minSentenceLength count sentenceComplexity;
          hi = maxSentenceLength count sentenceComplexity;
          factor = 10 powr ((of_int sentenceComplexity - 1) / 2 - 1);
          (statementContexts, \<sigma>1) = newContexts count factor 0 (nat count) (fst w)
      in andThen (firstStatements n statementContexts (\<sigma>1, snd w)) (\<lambda>(ss, ts) w1.
           generate_loop n count lo hi statementContexts
             \<lparr>statements_var = ss, sentences_var = ts, solutions_var = solutionsTo (fst w1) ss\<rparr> w1))"

section \<open>Auxiliary notions for the proofs\<close>

text \<open>
  The bit count with the conversions of the operators resolved: on the masks used, \<open>&\<close> is
  the conjunction of integers and \<open>>>>\<close> a division.
\<close>

definition popcount_arith :: "int \<Rightarrow> int" where
  "popcount_arith x =
     (let x1 = x - (x AND 0xAAAAAAAA) div 2;
          x2 = (x1 AND 0x33333333) + (x1 AND 0xCCCCCCCC) div 4;
          x3 = (x2 + x2 div 16) AND 0x0F0F0F0F
      in (x3 * 0x01010101) mod 2 ^ 32 div 2 ^ 24)"

text \<open>A 32-bit value as four bytes, and the three folding steps on one byte.\<close>

definition cat4 :: "int \<Rightarrow> int \<Rightarrow> int \<Rightarrow> int \<Rightarrow> int" where
  "cat4 a b c d = a + 256 * (b + 256 * (c + 256 * d))"

definition pairs_of :: "int \<Rightarrow> int" where
  "pairs_of b = b - (b AND 0xAA) div 2"

definition nibbles_of :: "int \<Rightarrow> int" where
  "nibbles_of u = (u AND 0x33) + (u AND 0xCC) div 4"

definition byte_of :: "int \<Rightarrow> int" where
  "byte_of v = (v + v div 16) AND 0x0F"

text \<open>
  A world extends another when its store is the other's with fresh objects appended (no
  object that existed is changed) and its draws are what is left of the other's.
\<close>

definition extends :: "world \<Rightarrow> world \<Rightarrow> bool" where
  "extends w w' = (\<exists>fresh used. fst w' = fst w @ fresh \<and> snd w = used @ snd w')"

text \<open>The statements the registered classes build: no \<open>Basic\<close> node anywhere.\<close>

fun renderable :: "LogicalStatement \<Rightarrow> bool" where
  "renderable (TrueFalseStatement _ _ _) = True"
| "renderable (TypeCountStatement _ _ _) = True"
| "renderable (LogicalAndStatement _ s1 s2) = (renderable s1 \<and> renderable s2)"
| "renderable (LogicalOrStatement _ s1 s2) = (renderable s1 \<and> renderable s2)"
| "renderable (LogicalIfStatement _ s1 s2) = (renderable s1 \<and> renderable s2)"
| "renderable _ = False"

text \<open>
  What an iteration of \<open>randomStatement\<close> over the classes \<open>cs\<close> hands back, and what a
  compound constructor hands back: in both cases a statement, never an error.
\<close>

definition produced ::
  "StatementClass list \<Rightarrow> ref \<Rightarrow> error + LogicalStatement \<Rightarrow> bool" where
  "produced cs ctx res =
     (\<exists>s arr. res = Inr s \<and> renderable s \<and> context_of s = ctx \<and> class_of s \<in> Some ` set cs
        \<and> subjectBitsArray s = Inr arr \<and> \<not> hasDuplicate arr)"

definition compound ::
  "(ref \<Rightarrow> LogicalStatement \<Rightarrow> LogicalStatement \<Rightarrow> LogicalStatement) \<Rightarrow> ref \<Rightarrow> world \<Rightarrow>
     error + LogicalStatement \<Rightarrow> bool" where
  "compound C ctx w res =
     (\<exists>s1 s2. res = Inr (C ctx s1 s2) \<and> renderable s1 \<and> renderable s2
        \<and> length (fst w) \<le> context_of s1 \<and> length (fst w) \<le> context_of s2)"


text \<open>Every context a statement refers to is an object of the store.\<close>

fun allocated :: "store \<Rightarrow> LogicalStatement \<Rightarrow> bool" where
  "allocated \<sigma> (BasicLogicalNotStatement s) = allocated \<sigma> s"
| "allocated \<sigma> (BasicLogicalOrStatement c s1 s2) = (c < length \<sigma> \<and> allocated \<sigma> s1 \<and> allocated \<sigma> s2)"
| "allocated \<sigma> (BasicLogicalAndStatement c s1 s2) = (c < length \<sigma> \<and> allocated \<sigma> s1 \<and> allocated \<sigma> s2)"
| "allocated \<sigma> (TrueFalseStatement c _ _) = (c < length \<sigma>)"
| "allocated \<sigma> (TypeCountStatement c _ _) = (c < length \<sigma>)"
| "allocated \<sigma> (LogicalAndStatement c s1 s2) = (c < length \<sigma> \<and> allocated \<sigma> s1 \<and> allocated \<sigma> s2)"
| "allocated \<sigma> (LogicalOrStatement c s1 s2) = (c < length \<sigma> \<and> allocated \<sigma> s1 \<and> allocated \<sigma> s2)"
| "allocated \<sigma> (LogicalIfStatement c s1 s2) = (c < length \<sigma> \<and> allocated \<sigma> s1 \<and> allocated \<sigma> s2)"

text \<open>The person counts that the contexts of a store hold.\<close>

definition personCounts :: "store \<Rightarrow> int set" where
  "personCounts \<sigma> = personCount ` set \<sigma>"
section \<open>Notions and concrete inputs used in the statements\<close>

text \<open>
  Consistency as the specification words it: the truth of the statement on an assignment
  equals the bit of the assignment at the position of the speaker.
\<close>

definition consistent_with_speaker :: "store \<Rightarrow> LogicalStatement \<Rightarrow> int \<Rightarrow> bool" where
  "consistent_with_speaker \<sigma> s a = (isTrueOn s a = bit a (nat (speakerIndex (\<sigma> ! context_of s))))"

text \<open>The context the puzzle assembler creates for speaker \<open>i\<close> of \<open>n\<close>.\<close>

definition speaker :: "int \<Rightarrow> int \<Rightarrow> LogicalStatementContext" where
  "speaker n i = \<lparr>personCount = n, speakerIndex = i, isRoot = True, shouldUseGa = False,
     preconditionPredicate = None, complexityFactor = 1\<rparr>"

text \<open>
  Thirty-one speakers, each saying of herself that she is a truth-teller, and the two-speaker
  puzzle "B is a truth-teller" / "A is a truth-teller or I am a truth-teller".
\<close>

definition store31 :: store where
  "store31 = map (\<lambda>i. speaker 31 (int i)) [0..<31]"

definition puzzle31 :: "LogicalStatement list" where
  "puzzle31 = map (\<lambda>i. TrueFalseStatement i (int i) True) [0..<31]"

definition store2 :: store where
  "store2 = [speaker 2 0, speaker 2 1,
     \<lparr>personCount = 2, speakerIndex = 1, isRoot = False, shouldUseGa = True,
      preconditionPredicate = None, complexityFactor = 1\<rparr>]"

definition puzzle2 :: "LogicalStatement list" where
  "puzzle2 = [TrueFalseStatement 0 1 True,
     LogicalOrStatement 1 (TrueFalseStatement 2 0 True) (TrueFalseStatement 2 1 True)]"

text \<open>
  A world for the random constructors: the context of speaker 0 of 2 and six draws.
  From it \<open>LogicalAndStatement.random\<close> builds "A is a truth-teller and B is a truth-teller",
  \<open>LogicalOrStatement.random\<close> "A is a truth-teller or B is a truth-teller".
\<close>

definition world2 :: world where
  "world2 = ([speaker 2 0], [1 / 4, 1 / 4, 1 / 4, 1 / 4, 3 / 4, 1 / 4])"

definition and2 :: LogicalStatement where
  "and2 = LogicalAndStatement 0 (TrueFalseStatement 1 0 True) (TrueFalseStatement 2 1 True)"

definition and2_store :: store where
  "and2_store = [speaker 2 0, (speaker 2 0)\<lparr>isRoot := False\<rparr>,
     (speaker 2 0)\<lparr>isRoot := False, preconditionPredicate := Some True\<rparr>]"

definition or2 :: LogicalStatement where
  "or2 = LogicalOrStatement 0 (TrueFalseStatement 1 0 True) (TrueFalseStatement 1 1 True)"

definition or2_store :: store where
  "or2_store = [speaker 2 0, (speaker 2 0)\<lparr>isRoot := False, shouldUseGa := True\<rparr>]"

text \<open>The six fields of a context, compared one by one.\<close>

definition same_fields :: "LogicalStatementContext \<Rightarrow> LogicalStatementContext \<Rightarrow> bool" where
  "same_fields before after =
     (personCount after = personCount before
      \<and> speakerIndex after = speakerIndex before
      \<and> isRoot after = isRoot before
      \<and> shouldUseGa after = shouldUseGa before
      \<and> preconditionPredicate after = preconditionPredicate before
      \<and> complexityFactor after = complexityFactor before)"

text \<open>
  Two worlds for \<open>TypeCountStatement.random\<close>: three persons, where the draws give "all three
  are liars"; and thirty persons, where the draws give the subject set of all thirty and
  the empty mask.
\<close>

definition world3 :: world where
  "world3 = ([speaker 3 0], [1 / 8, 7 / 8, 1 / 2])"

definition world30 :: world where
  "world30 = ([speaker 30 0], [1073741823 / 1073741824, 1 / 4294967296])"


text \<open>
  The state of the handler when control is at the head of its \<open>while\<close> loop, as lines 84 to
  102 establish it and every iteration restores it: one statement for each speaker's
  context, all contexts referred to are objects of the store, the person count of every
  context is a length that \<open>Array\<close> accepts, \<open>sentences\<close> holds the rendering of each
  statement and \<open>solutions\<close> the solver's output for \<open>statements\<close>.
\<close>

definition loop_state :: "store \<Rightarrow> ref list \<Rightarrow> puzzle \<Rightarrow> bool" where
  "loop_state \<sigma> statementContexts p =
     (length (statements_var p) = length statementContexts
      \<and> list_all (\<lambda>c. c < length \<sigma>) statementContexts
      \<and> list_all (\<lambda>c. 0 \<le> personCount c \<and> personCount c < 2 ^ 32) \<sigma>
      \<and> list_all (allocated \<sigma>) (statements_var p)
      \<and> map (sentence \<sigma>) (statements_var p) = map Inr (sentences_var p)
      \<and> solutions_var p = solutionsTo \<sigma> (statements_var p))"

text \<open>The state that an iteration of the loop leaves when it has replaced index \<open>i\<close>.\<close>

definition replaced :: "store \<Rightarrow> puzzle \<Rightarrow> nat \<Rightarrow> LogicalStatement \<Rightarrow> js_string \<Rightarrow> puzzle" where
  "replaced \<sigma> p i statement text =
     \<lparr>statements_var = (statements_var p)[i := statement],
      sentences_var = (sentences_var p)[i := text],
      solutions_var = solutionsTo \<sigma> ((statements_var p)[i := statement])\<rparr>"

text \<open>
  Two speakers who each call the other a truth-teller: the assignments \<open>0\<close> and \<open>3\<close> are both
  consistent, so the loop does not accept this puzzle.
\<close>

definition stores5 :: store where
  "stores5 = [speaker 2 0, speaker 2 1]"

definition puzzle5 :: puzzle where
  "puzzle5 =
     \<lparr>statements_var = [TrueFalseStatement 0 1 True, TrueFalseStatement 1 0 True],
      sentences_var = [personNameFromIndex 1 @ lit_ha @ lit_truthTeller @ lit_desu,
                       personNameFromIndex 0 @ lit_ha @ lit_truthTeller @ lit_desu],
      solutions_var = [0, 3]\<rparr>"

definition world5 :: world where
  "world5 = (stores5, [3 / 4, 1 / 4, 7 / 8, 1 / 4])"

definition puzzle5' :: puzzle where
  "puzzle5' =
     \<lparr>statements_var = [TrueFalseStatement 0 1 True, TypeCountStatement 1 3 2],
      sentences_var = [personNameFromIndex 1 @ lit_ha @ lit_truthTeller @ lit_desu,
                       lit_kono @ numberToString 2 @ lit_nin @ lit_nouchi @ lit_ha
                         @ numberToString 1 @ lit_nin @ lit_desu],
      solutions_var = [0]\<rparr>"
section \<open>The bit count\<close>

lemma toInt32_stb: "toInt32 x = signed_take_bit 31 x"
  by (simp add: toInt32_def signed_take_bit_eq_take_bit_shift take_bit_eq_mod)

lemma toUint32_tb: "toUint32 x = take_bit 32 x"
  by (simp add: toUint32_def take_bit_eq_mod)

lemma and_cat:
  fixes lo hi m mh :: int
  assumes "0 \<le> lo" "lo < 2 ^ n" "0 \<le> m" "m < 2 ^ n"
  shows "(lo + 2 ^ n * hi) AND (m + 2 ^ n * mh) = (lo AND m) + 2 ^ n * (hi AND mh)"
proof -
  have c: "concat_bit n lo hi AND concat_bit n m mh = concat_bit n (lo AND m) (hi AND mh)"
    by (rule bit_eqI) (auto simp: bit_concat_bit_iff bit_and_iff)
  have l: "take_bit n lo = lo" and r: "take_bit n m = m"
    using assms by (simp_all add: take_bit_int_eq_self)
  have "take_bit n (lo AND m) = lo AND m"
    by (simp add: l r)
  with c l r show ?thesis
    by (simp add: concat_bit_eq push_bit_eq_mult mult.commute)
qed

lemma js_and_small:
  assumes "0 \<le> m" "m < 2 ^ 31"
  shows "js_and a m = a AND m"
proof -
  have m: "signed_take_bit 31 m = m"
    using assms by (simp add: signed_take_bit_int_eq_self)
  have "signed_take_bit 31 a AND m = a AND m"
  proof (rule bit_eqI)
    fix k
    have "bit m k \<Longrightarrow> k < 31"
      using assms by (metis bit_take_bit_iff take_bit_int_eq_self)
    then show "bit (signed_take_bit 31 a AND m) k = bit (a AND m) k"
      by (auto simp: bit_and_iff bit_signed_take_bit_iff)
  qed
  then show ?thesis by (simp add: js_and_def toInt32_stb m)
qed

lemma toUint32_js_and:
  assumes "0 \<le> m" "m < 2 ^ 32"
  shows "toUint32 (js_and a m) = a AND m"
proof -
  have m: "take_bit 32 m = m"
    using assms by (simp add: take_bit_int_eq_self)
  have "take_bit 32 a AND m = a AND m"
  proof (rule bit_eqI)
    fix k
    have "bit m k \<Longrightarrow> k < 32"
      using assms by (metis bit_take_bit_iff take_bit_int_eq_self)
    then show "bit (take_bit 32 a AND m) k = bit (a AND m) k"
      by (auto simp: bit_and_iff bit_take_bit_iff)
  qed
  then show ?thesis
    by (simp add: toUint32_tb js_and_def toInt32_stb take_bit_signed_take_bit m)
qed

lemma popcount_arith: "popcount x = popcount_arith x"
proof -
  have u: "js_ushr (js_and a m) k = (a AND m) div 2 ^ shiftCount k" if "0 \<le> m" "m < 2 ^ 32" for a m k
    using that by (simp only: js_ushr_def toUint32_js_and)
  have s1: "shiftCount 1 = 1" "shiftCount 2 = 2" "shiftCount 4 = 4" "shiftCount 24 = 24"
    by (simp_all add: shiftCount_def)
  have a: "js_ushr (js_and x 0xAAAAAAAA) 1 = (x AND 0xAAAAAAAA) div 2" for x
    by (subst u) (simp_all add: s1)
  have c: "js_ushr (js_and x 0xCCCCCCCC) 2 = (x AND 0xCCCCCCCC) div 4" for x
    by (subst u) (simp_all add: s1)
  have t: "js_and x 0x33333333 = x AND 0x33333333" for x
    by (rule js_and_small) simp_all
  have f: "js_and x 0x0F0F0F0F = x AND 0x0F0F0F0F" for x
    by (rule js_and_small) simp_all
  have g: "js_ushr ((z AND 0x33333333) + (w AND 0xCCCCCCCC) div 4) 4
             = ((z AND 0x33333333) + (w AND 0xCCCCCCCC) div 4) div 16" for z w :: int
  proof -
    have zb: "0 \<le> (z AND 0x33333333)" "(z AND 0x33333333) \<le> 0x33333333"
      and wb: "0 \<le> (w AND 0xCCCCCCCC)" "(w AND 0xCCCCCCCC) \<le> 0xCCCCCCCC"
      by (simp_all add: AND_upper2)
    from wb have wd: "0 \<le> (w AND 0xCCCCCCCC) div 4" "(w AND 0xCCCCCCCC) div 4 \<le> 0x33333333"
      by linarith+
    have "0 \<le> (z AND 0x33333333) + (w AND 0xCCCCCCCC) div 4"
              "(z AND 0x33333333) + (w AND 0xCCCCCCCC) div 4 < 4294967296"
      using zb wd by linarith+
    then show ?thesis
      by (simp add: js_ushr_def toUint32_def s1)
  qed
  have h: "js_ushr y 24 = y mod 2 ^ 32 div 2 ^ 24" for y
    by (simp only: js_ushr_def toUint32_def s1)
  show ?thesis
    unfolding popcount_def popcount_arith_def Let_def a c t f g h ..
qed

lemma naive_count_cat:
  "0 \<le> lo \<Longrightarrow> lo < 2 ^ m \<Longrightarrow> naive_count (m + n) (lo + 2 ^ m * hi) = naive_count m lo + naive_count n hi"
proof (induction m arbitrary: lo)
  case 0
  then have "lo = 0" by simp
  then show ?case by simp
next
  case (Suc m)
  have d: "(lo + 2 ^ Suc m * hi) div 2 = lo div 2 + 2 ^ m * hi"
    by simp
  have e: "(lo + 2 ^ Suc m * hi) mod 2 = lo mod 2"
    by (simp add: mult.assoc)
  have "naive_count (m + n) (lo div 2 + 2 ^ m * hi) = naive_count m (lo div 2) + naive_count n hi"
    using Suc.prems by (intro Suc.IH) simp_all
  then show ?case
    by (simp only: add_Suc naive_count.simps d e)
qed

lemma naive_count_0: "naive_count k 0 = 0"
  by (induction k) simp_all

lemma naive_count_small: "0 \<le> x \<Longrightarrow> x < 2 ^ n \<Longrightarrow> naive_count (n + k) x = naive_count n x"
  using naive_count_cat [of x n k 0] by (simp add: naive_count_0)

lemma byte_table:
  "\<forall>b \<in> set [0..255]. nibbles_of (pairs_of b) mod 16 \<le> 4 \<and> nibbles_of (pairs_of b) div 16 \<le> 4
      \<and> byte_of (nibbles_of (pairs_of b)) = naive_count 8 b"
  by code_simp

lemma and4:
  fixes b0 b1 b2 b3 :: int
  assumes "0 \<le> b0" "b0 < 256" "0 \<le> b1" "b1 < 256" "0 \<le> b2" "b2 < 256"
    and "0 \<le> m0" "m0 < 256" "0 \<le> m1" "m1 < 256" "0 \<le> m2" "m2 < 256"
  shows "cat4 b0 b1 b2 b3 AND cat4 m0 m1 m2 m3 = cat4 (b0 AND m0) (b1 AND m1) (b2 AND m2) (b3 AND m3)"
proof -
  note c8 = and_cat [of _ 8, simplified]
  show ?thesis
    unfolding cat4_def by (simp only: c8 assms)
qed

lemma cat4_inject_bounds:
  assumes "0 \<le> x" "x < 2 ^ 32"
  obtains b0 b1 b2 b3 where "x = cat4 b0 b1 b2 b3"
    "0 \<le> b0" "b0 < 256" "0 \<le> b1" "b1 < 256" "0 \<le> b2" "b2 < 256" "0 \<le> b3" "b3 < 256"
proof -
  define r1 where "r1 = x div 256"
  define r2 where "r2 = r1 div 256"
  define r3 where "r3 = r2 div 256"
  have "x = x mod 256 + 256 * r1" "r1 = r1 mod 256 + 256 * r2" "r2 = r2 mod 256 + 256 * r3"
    by (simp_all add: r1_def r2_def r3_def)
  then have "x = cat4 (x mod 256) (r1 mod 256) (r2 mod 256) r3"
    unfolding cat4_def by simp
  moreover have "0 \<le> r3" "r3 < 256"
    using assms unfolding r1_def r2_def r3_def by simp_all
  ultimately show thesis
    by (intro that [of "x mod 256" "r1 mod 256" "r2 mod 256" r3]) simp_all
qed

lemma cat4_div:
  assumes "k dvd a" "k dvd b" "k dvd c" "k dvd d" "k \<noteq> 0"
  shows "cat4 a b c d div k = cat4 (a div k) (b div k) (c div k) (d div k)"
proof -
  from assms obtain a' b' c' d' where "a = k * a'" "b = k * b'" "c = k * c'" "d = k * d'"
    by (auto elim!: dvdE)
  moreover have "cat4 (k * a') (k * b') (k * c') (k * d') = k * cat4 a' b' c' d'"
    by (simp add: cat4_def algebra_simps)
  ultimately show ?thesis
    using assms(5) by simp
qed

lemma cat4_diff: "cat4 a b c d - cat4 a' b' c' d' = cat4 (a - a') (b - b') (c - c') (d - d')"
  by (simp add: cat4_def algebra_simps)

lemma cat4_add: "cat4 a b c d + cat4 a' b' c' d' = cat4 (a + a') (b + b') (c + c') (d + d')"
  by (simp add: cat4_def algebra_simps)

lemma step1:
  assumes "0 \<le> b0" "b0 < 256" "0 \<le> b1" "b1 < 256" "0 \<le> b2" "b2 < 256"
  shows "cat4 b0 b1 b2 b3 - (cat4 b0 b1 b2 b3 AND 0xAAAAAAAA) div 2
         = cat4 (pairs_of b0) (pairs_of b1) (pairs_of b2) (pairs_of b3)"
proof -
  have m: "(0xAAAAAAAA :: int) = cat4 0xAA 0xAA 0xAA 0xAA"
    by (simp add: cat4_def)
  have e: "2 dvd (b AND 0xAA)" for b :: int
    by (simp add: even_and_iff)
  have "cat4 b0 b1 b2 b3 AND 0xAAAAAAAA = cat4 (b0 AND 0xAA) (b1 AND 0xAA) (b2 AND 0xAA) (b3 AND 0xAA)"
    unfolding m using assms by (intro and4) simp_all
  then show ?thesis
    by (simp only: cat4_div [OF e e e e] cat4_diff pairs_of_def)
qed

lemma step2:
  assumes "0 \<le> b0" "b0 < 256" "0 \<le> b1" "b1 < 256" "0 \<le> b2" "b2 < 256"
  shows "(cat4 b0 b1 b2 b3 AND 0x33333333) + (cat4 b0 b1 b2 b3 AND 0xCCCCCCCC) div 4
         = cat4 (nibbles_of b0) (nibbles_of b1) (nibbles_of b2) (nibbles_of b3)"
proof -
  have m: "(0x33333333 :: int) = cat4 0x33 0x33 0x33 0x33"
       "(0xCCCCCCCC :: int) = cat4 0xCC 0xCC 0xCC 0xCC"
    by (simp_all add: cat4_def)
  have e: "4 dvd (b AND 0xCC)" for b :: int
  proof -
    have "take_bit 2 (b AND 0xCC) = 0"
      by (simp add: take_bit_and)
    then show ?thesis by (simp add: take_bit_eq_mod dvd_eq_mod_eq_0)
  qed
  have 1: "cat4 b0 b1 b2 b3 AND 0x33333333 = cat4 (b0 AND 0x33) (b1 AND 0x33) (b2 AND 0x33) (b3 AND 0x33)"
    unfolding m using assms by (intro and4) simp_all
  have 2: "cat4 b0 b1 b2 b3 AND 0xCCCCCCCC = cat4 (b0 AND 0xCC) (b1 AND 0xCC) (b2 AND 0xCC) (b3 AND 0xCC)"
    unfolding m using assms by (intro and4) simp_all
  show ?thesis
    by (simp only: 1 2 cat4_div [OF e e e e] cat4_add nibbles_of_def)
qed

lemma and_15: "(x :: int) AND 15 = x mod 16"
proof -
  have "take_bit 4 x = x AND mask 4"
    by (rule take_bit_eq_mask)
  then show ?thesis
    by (simp add: take_bit_eq_mod mask_eq_exp_minus_1)
qed

lemma cat4_shift4:
  assumes "0 \<le> r0" "r0 < 16"
  shows "cat4 (16 * q0 + r0) (16 * q1 + r1) (16 * q2 + r2) (16 * q3 + r3) div 16
         = cat4 (q0 + 16 * r1) (q1 + 16 * r2) (q2 + 16 * r3) q3"
proof -
  have "cat4 (16 * q0 + r0) (16 * q1 + r1) (16 * q2 + r2) (16 * q3 + r3)
        = r0 + 16 * cat4 (q0 + 16 * r1) (q1 + 16 * r2) (q2 + 16 * r3) q3"
    by (simp add: cat4_def algebra_simps)
  then show ?thesis
    using assms by simp
qed

lemma naive_count_bounds: "0 \<le> naive_count n x \<and> naive_count n x \<le> int n"
proof (induction n arbitrary: x)
  case 0
  show ?case by simp
next
  case (Suc n)
  have "0 \<le> x mod 2" "x mod 2 \<le> 1"
    by simp_all
  with Suc [of "x div 2"] show ?case
    by simp
qed

lemma step3_digits:
  assumes "0 \<le> q0" "q0 \<le> 4" "0 \<le> r0" "r0 \<le> 4"
    and "0 \<le> q1" "q1 \<le> 4" "0 \<le> r1" "r1 \<le> 4"
    and "0 \<le> q2" "q2 \<le> 4" "0 \<le> r2" "r2 \<le> 4"
    and "0 \<le> q3" "q3 \<le> 4" "0 \<le> r3" "r3 \<le> 4"
  shows "(cat4 (16 * q0 + r0) (16 * q1 + r1) (16 * q2 + r2) (16 * q3 + r3)
          + cat4 (16 * q0 + r0) (16 * q1 + r1) (16 * q2 + r2) (16 * q3 + r3) div 16) AND 0x0F0F0F0F
         = cat4 (q0 + r0) (q1 + r1) (q2 + r2) (q3 + r3)"
proof -
  define w0 where "w0 = (q0 + r0) + 16 * (q0 + r1)"
  define w1 where "w1 = (q1 + r1) + 16 * (q1 + r2)"
  define w2 where "w2 = (q2 + r2) + 16 * (q2 + r3)"
  define w3 where "w3 = (q3 + r3) + 16 * q3"
  have m: "(0x0F0F0F0F :: int) = cat4 15 15 15 15"
    by (simp add: cat4_def)
  have "cat4 (16 * q0 + r0) (16 * q1 + r1) (16 * q2 + r2) (16 * q3 + r3) div 16
        = cat4 (q0 + 16 * r1) (q1 + 16 * r2) (q2 + 16 * r3) q3"
    using assms by (intro cat4_shift4) simp_all
  then have s: "cat4 (16 * q0 + r0) (16 * q1 + r1) (16 * q2 + r2) (16 * q3 + r3)
          + cat4 (16 * q0 + r0) (16 * q1 + r1) (16 * q2 + r2) (16 * q3 + r3) div 16
        = cat4 w0 w1 w2 w3"
    by (simp add: cat4_add w0_def w1_def w2_def w3_def)
  have b: "0 \<le> w0" "w0 < 256" "0 \<le> w1" "w1 < 256" "0 \<le> w2" "w2 < 256"
    using assms by (auto simp: w0_def w1_def w2_def)
  have a: "cat4 w0 w1 w2 w3 AND 0x0F0F0F0F = cat4 (w0 AND 15) (w1 AND 15) (w2 AND 15) (w3 AND 15)"
    unfolding m using b by (intro and4) simp_all
  have l: "((q + r) + 16 * k) AND 15 = q + r" if "0 \<le> q" "q \<le> 4" "0 \<le> r" "r \<le> 4" for q r k :: int
  proof -
    have "((q + r) + 16 * k) mod 16 = (q + r) mod 16"
      by (rule mod_mult_self2)
    also have "\<dots> = q + r"
      using that by simp
    finally show ?thesis
      by (simp only: and_15)
  qed
  have "w0 AND 15 = q0 + r0" "w1 AND 15 = q1 + r1" "w2 AND 15 = q2 + r2" "w3 AND 15 = q3 + r3"
    unfolding w0_def w1_def w2_def w3_def using assms by (simp_all only: l)
  with a s show ?thesis
    by simp
qed

lemma byte_of_digits:
  assumes "0 \<le> q" "q \<le> 4" "0 \<le> r" "r \<le> 4"
  shows "byte_of (16 * q + r) = q + r"
proof -
  have "(16 * q + r) div 16 = q"
    using assms by simp
  moreover have "(q + r + 16 * q) mod 16 = (q + r) mod 16"
    by (simp only: mod_mult_self2)
  moreover have "(q + r) mod 16 = q + r"
    using assms by simp
  moreover have "16 * q + r + q = q + r + 16 * q"
    by simp
  ultimately show ?thesis
    by (simp only: byte_of_def and_15)
qed

lemma step3:
  assumes "0 \<le> v0" "v0 mod 16 \<le> 4" "v0 div 16 \<le> 4"
    and "0 \<le> v1" "v1 mod 16 \<le> 4" "v1 div 16 \<le> 4"
    and "0 \<le> v2" "v2 mod 16 \<le> 4" "v2 div 16 \<le> 4"
    and "0 \<le> v3" "v3 mod 16 \<le> 4" "v3 div 16 \<le> 4"
  shows "(cat4 v0 v1 v2 v3 + cat4 v0 v1 v2 v3 div 16) AND 0x0F0F0F0F
         = cat4 (byte_of v0) (byte_of v1) (byte_of v2) (byte_of v3)"
proof -
  have d: "0 \<le> v div 16" "0 \<le> v mod 16" if "0 \<le> v" for v :: int
    using that by simp_all
  have k: "16 * (v div 16) + v mod 16 = v" for v :: int
    by simp
  have e: "byte_of v = v div 16 + v mod 16" if "0 \<le> v" "v mod 16 \<le> 4" "v div 16 \<le> 4" for v
  proof -
    have "byte_of (16 * (v div 16) + v mod 16) = v div 16 + v mod 16"
      by (rule byte_of_digits [OF d(1) [OF that(1)] that(3) d(2) [OF that(1)] that(2)])
    then show ?thesis
      by (simp only: k)
  qed
  note s = step3_digits [OF d(1) [OF assms(1)] assms(3) d(2) [OF assms(1)] assms(2)
      d(1) [OF assms(4)] assms(6) d(2) [OF assms(4)] assms(5)
      d(1) [OF assms(7)] assms(9) d(2) [OF assms(7)] assms(8)
      d(1) [OF assms(10)] assms(12) d(2) [OF assms(10)] assms(11)]
  show ?thesis
    using s unfolding k
    by (simp only: e [OF assms(1-3)] e [OF assms(4-6)] e [OF assms(7-9)] e [OF assms(10-12)])
qed

lemma step4:
  assumes "0 \<le> c0" "c0 \<le> 8" "0 \<le> c1" "c1 \<le> 8" "0 \<le> c2" "c2 \<le> 8" "0 \<le> c3" "c3 \<le> 8"
  shows "(cat4 c0 c1 c2 c3 * 0x01010101) mod 2 ^ 32 div 2 ^ 24 = c0 + c1 + c2 + c3"
proof -
  define A where "A = c0 + 256 * (c0 + c1) + 65536 * (c0 + c1 + c2)"
  define S where "S = c0 + c1 + c2 + c3"
  define T where "T = c1 + c2 + c3 + 256 * (c2 + c3) + 65536 * c3"
  define R where "R = A + 16777216 * S"
  have p: "cat4 c0 c1 c2 c3 * 0x01010101 = R + 4294967296 * T"
    by (simp add: cat4_def A_def S_def T_def R_def algebra_simps)
  have a: "0 \<le> A" "A < 16777216" and s: "0 \<le> S" "S \<le> 32"
    using assms by (simp_all add: A_def S_def)
  then have r: "0 \<le> R" "R < 4294967296"
    unfolding R_def by linarith+
  have "(R + 4294967296 * T) mod 4294967296 = R mod 4294967296"
    by (rule mod_mult_self2)
  also have "\<dots> = R"
    using r by (rule mod_pos_pos_trivial)
  finally have 1: "(cat4 c0 c1 c2 c3 * 0x01010101) mod 2 ^ 32 = R"
    by (simp only: p) simp
  have "(A + 16777216 * S) div 16777216 = S + A div 16777216"
    by (rule div_mult_self2) simp
  moreover have "A div 16777216 = 0"
    using a by (rule div_pos_pos_trivial)
  ultimately have "R div 2 ^ 24 = S"
    by (simp only: R_def) simp
  then show ?thesis
    by (simp only: 1 S_def)
qed

lemma popcount_arith_naive:
  assumes "0 \<le> x" "x < 2 ^ 32"
  shows "popcount_arith x = naive_count 32 x"
proof -
  from assms obtain b0 b1 b2 b3 where x: "x = cat4 b0 b1 b2 b3"
    and b: "0 \<le> b0" "b0 < 256" "0 \<le> b1" "b1 < 256" "0 \<le> b2" "b2 < 256" "0 \<le> b3" "b3 < 256"
    by (rule cat4_inject_bounds)
  have t: "nibbles_of (pairs_of b) mod 16 \<le> 4 \<and> nibbles_of (pairs_of b) div 16 \<le> 4
      \<and> byte_of (nibbles_of (pairs_of b)) = naive_count 8 b" if "0 \<le> b" "b < 256" for b
  proof -
    from that have "b \<in> set [0..255]"
      by (simp only: set_upto atLeastAtMost_iff) simp
    with byte_table show ?thesis
      by (rule bspec)
  qed
  have pb: "0 \<le> pairs_of b \<and> pairs_of b < 256" if "0 \<le> b" "b < 256" for b
  proof -
    have "0 \<le> (b AND 0xAA)" "(b AND 0xAA) \<le> b"
      using that by (simp_all add: AND_upper1)
    then show ?thesis using that unfolding pairs_of_def by linarith
  qed
  have nb: "0 \<le> nibbles_of u" for u
  proof -
    have "0 \<le> (u AND 0x33)" "0 \<le> (u AND 0xCC)"
      by simp_all
    then show ?thesis unfolding nibbles_of_def by linarith
  qed
  have nc: "0 \<le> naive_count 8 b \<and> naive_count 8 b \<le> 8" for b
    using naive_count_bounds [of 8 b] by simp
  define u0 u1 u2 u3 where "u0 = pairs_of b0" and "u1 = pairs_of b1" and "u2 = pairs_of b2"
    and "u3 = pairs_of b3"
  define v0 v1 v2 v3 where "v0 = nibbles_of u0" and "v1 = nibbles_of u1" and "v2 = nibbles_of u2"
    and "v3 = nibbles_of u3"
  have 1: "x - (x AND 0xAAAAAAAA) div 2 = cat4 u0 u1 u2 u3"
    unfolding x u0_def u1_def u2_def u3_def using b by (intro step1)
  have ub: "0 \<le> u0" "u0 < 256" "0 \<le> u1" "u1 < 256" "0 \<le> u2" "u2 < 256"
    unfolding u0_def u1_def u2_def using pb b by simp_all
  have 2: "(cat4 u0 u1 u2 u3 AND 0x33333333) + (cat4 u0 u1 u2 u3 AND 0xCCCCCCCC) div 4
           = cat4 v0 v1 v2 v3"
    unfolding v0_def v1_def v2_def v3_def using ub by (intro step2)
  have vb: "0 \<le> v0" "v0 mod 16 \<le> 4" "v0 div 16 \<le> 4"
    "0 \<le> v1" "v1 mod 16 \<le> 4" "v1 div 16 \<le> 4"
    "0 \<le> v2" "v2 mod 16 \<le> 4" "v2 div 16 \<le> 4"
    "0 \<le> v3" "v3 mod 16 \<le> 4" "v3 div 16 \<le> 4"
    unfolding v0_def v1_def v2_def v3_def u0_def u1_def u2_def u3_def
    using t b nb by simp_all
  have bv: "byte_of v0 = naive_count 8 b0" "byte_of v1 = naive_count 8 b1"
    "byte_of v2 = naive_count 8 b2" "byte_of v3 = naive_count 8 b3"
    unfolding v0_def v1_def v2_def v3_def u0_def u1_def u2_def u3_def
    using t b by simp_all
  have 3: "(cat4 v0 v1 v2 v3 + cat4 v0 v1 v2 v3 div 16) AND 0x0F0F0F0F
           = cat4 (naive_count 8 b0) (naive_count 8 b1) (naive_count 8 b2) (naive_count 8 b3)"
    using vb by (simp only: step3 bv)
  have 4: "(cat4 (naive_count 8 b0) (naive_count 8 b1) (naive_count 8 b2) (naive_count 8 b3)
             * 0x01010101) mod 2 ^ 32 div 2 ^ 24
           = naive_count 8 b0 + naive_count 8 b1 + naive_count 8 b2 + naive_count 8 b3"
    using nc by (intro step4) simp_all
  have p: "popcount_arith x
           = naive_count 8 b0 + naive_count 8 b1 + naive_count 8 b2 + naive_count 8 b3"
    unfolding popcount_arith_def Let_def by (simp only: 1 2 3 4)
  have c1: "naive_count (8 + 24) (b0 + 2 ^ 8 * (b1 + 2 ^ 8 * (b2 + 2 ^ 8 * b3)))
        = naive_count 8 b0 + naive_count 24 (b1 + 2 ^ 8 * (b2 + 2 ^ 8 * b3))"
    by (rule naive_count_cat) (use b in simp_all)
  have c2: "naive_count (8 + 16) (b1 + 2 ^ 8 * (b2 + 2 ^ 8 * b3))
        = naive_count 8 b1 + naive_count 16 (b2 + 2 ^ 8 * b3)"
    by (rule naive_count_cat) (use b in simp_all)
  have c3: "naive_count (8 + 8) (b2 + 2 ^ 8 * b3) = naive_count 8 b2 + naive_count 8 b3"
    by (rule naive_count_cat) (use b in simp_all)
  have n: "(8::nat) + 24 = 32" "(8::nat) + 16 = 24" "(8::nat) + 8 = 16" "(2::int) ^ 8 = 256"
    by simp_all
  have "naive_count 32 x
      = naive_count 8 b0 + naive_count 8 b1 + naive_count 8 b2 + naive_count 8 b3"
    unfolding x cat4_def using c1 c2 c3 by (simp only: n)
  with p show ?thesis
    by simp
qed

section \<open>Rounding of a product\<close>

lemma roundTiesToEven_near: "\<bar>of_int (roundTiesToEven q) - q\<bar> \<le> 1 / 2"
  unfolding roundTiesToEven_def Let_def by (auto simp: abs_if) linarith+

lemma roundTiesToEven_ge: "of_int m \<le> q \<Longrightarrow> m \<le> roundTiesToEven q"
  unfolding roundTiesToEven_def Let_def by (auto simp: le_floor_iff) linarith+

lemma roundTiesToEven_le: "q \<le> of_int m \<Longrightarrow> roundTiesToEven q \<le> m"
proof -
  assume a: "q \<le> of_int m"
  then have f: "\<lfloor>q\<rfloor> \<le> m"
    by (simp add: floor_le_iff)
  show ?thesis
  proof (cases "\<lfloor>q\<rfloor> = m")
    case True
    with a have "q = of_int \<lfloor>q\<rfloor>"
      using of_int_floor_le [of q] by simp
    then have "q - of_int \<lfloor>q\<rfloor> = 0" by simp
    then show ?thesis
      using f unfolding roundTiesToEven_def Let_def by simp
  next
    case False
    with f have "\<lfloor>q\<rfloor> + 1 \<le> m" by simp
    then show ?thesis
      unfolding roundTiesToEven_def Let_def by auto
  qed
qed

lemma ulp_up_shape: "1 \<le> x \<Longrightarrow> \<exists>j. ulp_up k x u = u * 2 ^ j \<and> 2 ^ j \<le> x"
proof (induction k arbitrary: x u)
  case 0
  then show ?case by (intro exI [of _ 0]) simp
next
  case (Suc k)
  show ?case
  proof (cases "x < 2")
    case True
    with Suc.prems show ?thesis by (intro exI [of _ 0]) simp
  next
    case False
    then have "1 \<le> x / 2" by simp
    from Suc.IH [OF this, of "2 * u"] obtain j where "ulp_up k (x / 2) (2 * u) = 2 * u * 2 ^ j"
      "2 ^ j \<le> x / 2"
      by blast
    with False show ?thesis
      by (intro exI [of _ "Suc j"]) simp
  qed
qed

lemma ulp_down_shape:
  "0 < x \<Longrightarrow> \<exists>j\<le>k. ulp_down k x u = u / 2 ^ j \<and> (1 \<le> x * 2 ^ j \<or> j = k)"
proof (induction k arbitrary: x u)
  case 0
  then show ?case by simp
next
  case (Suc k)
  show ?case
  proof (cases "1 \<le> x")
    case True
    then show ?thesis by (intro exI [of _ 0]) simp
  next
    case False
    from Suc.prems have "0 < 2 * x" by simp
    from Suc.IH [OF this, of "u / 2"] obtain j where "j \<le> k"
      "ulp_down k (2 * x) (u / 2) = u / 2 / 2 ^ j" "1 \<le> 2 * x * 2 ^ j \<or> j = k"
      by blast
    with False show ?thesis
      by (intro exI [of _ "Suc j"]) (auto simp: mult_ac)
  qed
qed

lemma ulp_cases:
  assumes "0 < x"
  obtains (up) j where "1 \<le> x" "ulp x = 2 ^ j / 2 ^ 52" "2 ^ j \<le> x"
  | (down) j where "x < 1" "j \<le> 1022" "ulp x = 1 / (2 ^ 52 * 2 ^ j)" "1 \<le> x * 2 ^ j \<or> j = 1022"
proof (cases "1 \<le> x")
  case True
  define u0 :: real where "u0 = 1 / 2 ^ 52"
  from ulp_up_shape [OF True, of 1023 u0] obtain j
    where "ulp_up 1023 x u0 = u0 * 2 ^ j" "2 ^ j \<le> x"
    by blast
  moreover have "ulp x = ulp_up 1023 x u0"
    using True by (simp add: ulp_def u0_def)
  ultimately have "ulp x = 2 ^ j / 2 ^ 52" "2 ^ j \<le> x"
    by (simp_all add: u0_def)
  with True show ?thesis by (rule up)
next
  case False
  define u0 :: real where "u0 = 1 / 2 ^ 52"
  from ulp_down_shape [OF assms, of 1022 u0] obtain j
    where "j \<le> 1022" "ulp_down 1022 x u0 = u0 / 2 ^ j" "1 \<le> x * 2 ^ j \<or> j = 1022"
    by blast
  moreover have "ulp x = ulp_down 1022 x u0"
    using False by (simp add: ulp_def u0_def)
  ultimately have "j \<le> 1022" "ulp x = 1 / (2 ^ 52 * 2 ^ j)" "1 \<le> x * 2 ^ j \<or> j = 1022"
    by (simp_all add: u0_def)
  with False show ?thesis by (intro down) simp_all
qed

lemma ulp_pos:
  assumes x: "0 < x"
  shows "0 < ulp x"
  using x
proof (cases rule: ulp_cases)
  case (up j)
  have "(0::real) < 2 ^ j / 2 ^ 52"
    by (intro divide_pos_pos zero_less_power) simp_all
  then show ?thesis
    unfolding up(2) .
next
  case (down j)
  have "(0::real) < 1 / (2 ^ 52 * 2 ^ j)"
    by (intro divide_pos_pos mult_pos_pos zero_less_power) simp_all
  then show ?thesis
    unfolding down(3) .
qed

lemma ulp_le:
  assumes x: "0 < x"
  shows "ulp x \<le> x / 2 ^ 52 \<or> (x < 1 / 2 ^ 1022 \<and> ulp x = 1 / 2 ^ 1074)"
  using x
proof (cases rule: ulp_cases)
  case (up j)
  then have "ulp x \<le> x / 2 ^ 52"
    by (simp only: divide_right_mono zero_le_power zero_le_numeral)
  then show ?thesis ..
next
  case (down j)
  show ?thesis
  proof (cases "1 \<le> x * 2 ^ j")
    case True
    then have "1 / 2 ^ j \<le> x"
      by (simp add: field_simps)
    then have "1 / 2 ^ j / 2 ^ 52 \<le> x / 2 ^ 52"
      by (rule divide_right_mono) simp
    moreover have "ulp x = 1 / 2 ^ j / 2 ^ 52"
      unfolding down(3) by (simp only: divide_divide_eq_left mult.commute)
    ultimately have "ulp x \<le> x / 2 ^ 52"
      by (simp only:)
    then show ?thesis ..
  next
    case False
    with down(4) have e: "j = 1022" by simp
    from False have "x < 1 / 2 ^ j"
      by (simp add: field_simps)
    then have "x < 1 / 2 ^ 1022"
      unfolding e .
    moreover have "(2::real) ^ 52 * 2 ^ 1022 = 2 ^ 1074"
      by (simp only: flip: power_add) simp
    then have "ulp x = 1 / 2 ^ 1074"
      unfolding down(3) e by (simp only:)
    ultimately show ?thesis by (simp only: simp_thms)
  qed
qed

lemma ulp_divides:
  assumes x: "0 < x" and "x < 2 ^ 53"
  shows "\<exists>n. ulp x * 2 ^ n = 1"
  using x
proof (cases rule: ulp_cases)
  case (up j)
  from up(3) assms(2) have "(2::real) ^ j < 2 ^ 53"
    by (rule le_less_trans)
  then have "j < 53"
    by (simp only: power_strict_increasing_iff one_less_numeral_iff semiring_norm)
  then have "(2::real) ^ j * 2 ^ (52 - j) = 2 ^ 52"
    by (simp only: flip: power_add) simp
  then have "ulp x * 2 ^ (52 - j) = 1"
    unfolding up(2) by (simp add: field_simps)
  then show ?thesis ..
next
  case (down j)
  have "ulp x * 2 ^ (52 + j) = 1"
    unfolding down(3) by (simp only: power_add) simp
  then show ?thesis ..
qed

lemma double_upper:
  assumes "0 \<le> x"
  shows "double x \<le> x * (1 + 1 / 2 ^ 53) \<or> (x < 1 / 2 ^ 1022 \<and> double x \<le> x + 1 / 2 ^ 1075)"
proof (cases "x = 0")
  case True
  then show ?thesis by (simp add: double_def)
next
  case False
  with assms have x: "0 < x" by simp
  define u where "u = ulp x"
  have u: "0 < u" unfolding u_def using x by (rule ulp_pos)
  define m where "m = roundTiesToEven (x / u)"
  have d: "double x = of_int m * u"
    using x by (simp add: double_def m_def u_def)
  from roundTiesToEven_near [of "x / u"] have "of_int m - x / u \<le> 1 / 2"
    unfolding m_def by linarith
  then have "(of_int m - x / u) * u \<le> 1 / 2 * u"
    using u by (intro mult_right_mono) simp_all
  then have b: "double x \<le> x + u / 2"
    using u by (simp add: d algebra_simps)
  from ulp_le [OF x] show ?thesis
  proof
    assume "ulp x \<le> x / 2 ^ 52"
    with b have "double x \<le> x * (1 + 1 / 2 ^ 53)"
      unfolding u_def by (simp add: algebra_simps)
    then show ?thesis ..
  next
    assume "x < 1 / 2 ^ 1022 \<and> ulp x = 1 / 2 ^ 1074"
    with b show ?thesis
      unfolding u_def by simp
  qed
qed

lemma double_ge_int:
  assumes "0 \<le> x" "x < 2 ^ 53" "of_int k \<le> x"
  shows "of_int k \<le> double x"
proof (cases "x = 0")
  case True
  with assms(3) show ?thesis by (simp add: double_def)
next
  case False
  with assms have x: "0 < x" by simp
  define u where "u = ulp x"
  have u: "0 < u" unfolding u_def using x by (rule ulp_pos)
  from ulp_divides [OF x assms(2)] obtain n where n: "u * 2 ^ n = 1"
    unfolding u_def by blast
  then have iu: "1 / u = 2 ^ n"
    using u by (simp add: field_simps)
  have "of_int k / u = of_int k * (1 / u)"
    by simp
  also have "\<dots> = of_int k * 2 ^ n"
    by (simp only: iu)
  also have "\<dots> = of_int (k * 2 ^ n)"
    by simp
  finally have "of_int k / u = of_int (k * 2 ^ n)" .
  moreover have "of_int k / u \<le> x / u"
    using assms(3) u by (simp add: divide_right_mono)
  ultimately have "of_int (k * 2 ^ n) \<le> x / u"
    by simp
  then have "k * 2 ^ n \<le> roundTiesToEven (x / u)"
    by (rule roundTiesToEven_ge)
  then have "(of_int (k * 2 ^ n) :: real) \<le> of_int (roundTiesToEven (x / u))"
    by (simp only: of_int_le_iff)
  then have "of_int (k * 2 ^ n) * u \<le> of_int (roundTiesToEven (x / u)) * u"
    using u by (intro mult_right_mono) simp_all
  moreover have "of_int (k * 2 ^ n) * u = of_int k * (u * 2 ^ n)"
    by simp
  then have "of_int (k * 2 ^ n) * u = of_int k"
    by (simp only: n mult_1_right)
  ultimately have "of_int k \<le> of_int (roundTiesToEven (x / u)) * u"
    by (simp only:)
  moreover have "double x = of_int (roundTiesToEven (x / u)) * u"
    using x by (simp add: double_def u_def)
  ultimately show ?thesis
    by (simp only:)
qed


lemma double_upper_small:
  assumes "0 \<le> x"
  shows "double x \<le> x * (1 + 1 / 2 ^ 53) \<or> double x < 1"
proof -
  have h: "(1::real) / 2 ^ n \<le> 1 / 4" if "2 \<le> n" for n
  proof -
    have "(2::real) ^ 2 \<le> 2 ^ n"
      using that by (intro power_increasing) simp_all
    then have "(1::real) / 2 ^ n \<le> 1 / 2 ^ 2"
      by (intro divide_left_mono) simp_all
    then show ?thesis by simp
  qed
  from double_upper [OF assms] show ?thesis
  proof
    assume "double x \<le> x * (1 + 1 / 2 ^ 53)"
    then show ?thesis ..
  next
    assume a: "x < 1 / 2 ^ 1022 \<and> double x \<le> x + 1 / 2 ^ 1075"
    have "(1::real) / 2 ^ 1022 \<le> 1 / 4" "(1::real) / 2 ^ 1075 \<le> 1 / 4"
      by (rule h, simp)+
    with a have "double x < 1"
      by linarith
    then show ?thesis ..
  qed
qed

lemma double_less_int:
  assumes "0 \<le> x" "x < 2 ^ 53" "double x < of_int k"
  shows "x < of_int k"
  using double_ge_int [OF assms(1,2), of k] assms(3) by linarith

lemma index_in_range:
  assumes r: "0 \<le> r" "r \<le> 1 - 1 / 2 ^ 53" and c: "0 < count" "count \<le> 2 ^ 53"
  shows "0 \<le> \<lfloor>double (r * of_int count)\<rfloor> \<and> \<lfloor>double (r * of_int count)\<rfloor> < count"
proof -
  define x where "x = r * of_int count"
  have c': "(0::real) < of_int count" "real_of_int count \<le> 2 ^ 53"
    using c by (simp_all add: of_int_le_numeral_power_cancel_iff)
  have x0: "0 \<le> x"
    unfolding x_def using r(1) c'(1) by simp
  have "x \<le> (1 - 1 / 2 ^ 53) * of_int count"
    unfolding x_def using r(2) c'(1) by (intro mult_right_mono) simp_all
  then have x1: "x \<le> of_int count - of_int count / 2 ^ 53"
    by (simp add: algebra_simps)
  with c' have x2: "x < 2 ^ 53"
    by (smt (verit) divide_pos_pos zero_less_power zero_less_numeral)
  from double_ge_int [OF x0 x2, of 0] x0 have lo: "0 \<le> double x"
    by simp
  have hi: "double x < of_int count"
    using double_upper_small [OF x0]
  proof
    assume "double x \<le> x * (1 + 1 / 2 ^ 53)"
    also have "\<dots> \<le> (of_int count - of_int count / 2 ^ 53) * (1 + 1 / 2 ^ 53)"
      using x1 by (intro mult_right_mono) simp_all
    also have "\<dots> = of_int count - of_int count / 2 ^ 53 / 2 ^ 53"
      by (simp add: algebra_simps)
    also have "\<dots> < of_int count"
      using c'(1) by simp
    finally show ?thesis .
  next
    assume "double x < 1"
    moreover have "(1::real) \<le> of_int count"
      using c(1) by linarith
    ultimately show ?thesis by linarith
  qed
  from lo hi show ?thesis
    unfolding x_def by (simp add: floor_less_iff)
qed

lemma index_uniform:
  assumes r: "0 \<le> r" "r \<le> 1 - 1 / 2 ^ 53" and c: "0 < count" "count \<le> 2 ^ 53"
  shows "(of_int k / of_int count \<le> r \<and> r * (1 + 1 / 2 ^ 53) < (of_int k + 1) / of_int count
            \<longrightarrow> \<lfloor>double (r * of_int count)\<rfloor> = k)
       \<and> (\<lfloor>double (r * of_int count)\<rfloor> = k
            \<longrightarrow> of_int k / of_int count \<le> r * (1 + 1 / 2 ^ 53) \<and> r < (of_int k + 1) / of_int count)"
proof -
  define x where "x = r * of_int count"
  define e :: real where "e = 1 + 1 / 2 ^ 53"
  have e: "0 < e" "1 \<le> e"
    by (simp_all add: e_def)
  have c': "(0::real) < of_int count" "real_of_int count \<le> 2 ^ 53"
    using c by (simp_all add: of_int_le_numeral_power_cancel_iff)
  have x0: "0 \<le> x"
    unfolding x_def using r(1) c'(1) by simp
  from index_in_range [OF r c] have "double x < of_int count"
    unfolding x_def by (simp add: floor_less_iff)
  have "x \<le> (1 - 1 / 2 ^ 53) * of_int count"
    unfolding x_def using r(2) c'(1) by (intro mult_right_mono) simp_all
  then have "x \<le> of_int count - of_int count / 2 ^ 53"
    by (simp add: algebra_simps)
  with c' have x2: "x < 2 ^ 53"
    by (smt (verit) divide_pos_pos zero_less_power zero_less_numeral)
  have le: "(of_int k / of_int count \<le> r) = (of_int k \<le> x)" for k :: int
    unfolding x_def using c'(1) by (simp add: pos_divide_le_eq)
  have less: "(r < (of_int k + 1) / of_int count) = (x < of_int (k + 1))" for k :: int
    unfolding x_def using c'(1) by (simp add: pos_less_divide_eq)
  have less': "(r * e < (of_int k + 1) / of_int count) = (x * e < of_int (k + 1))" for k :: int
    unfolding x_def using c'(1) by (simp add: pos_less_divide_eq mult_ac)
  have le': "(of_int k / of_int count \<le> r * e) = (of_int k \<le> x * e)" for k :: int
    unfolding x_def using c'(1) by (simp add: pos_divide_le_eq mult_ac)
  have 1: "\<lfloor>double x\<rfloor> = k" if "of_int k \<le> x" "x * e < of_int (k + 1)"
  proof -
    from that(1) have a: "of_int k \<le> double x"
      by (rule double_ge_int [OF x0 x2])
    from x0 e(2) have "x \<le> x * e"
      by (simp add: mult_le_cancel_left1)
    with that x0 have k0: "0 \<le> k"
      by linarith
    have "double x < of_int (k + 1)"
      using double_upper_small [OF x0]
    proof
      assume "double x \<le> x * (1 + 1 / 2 ^ 53)"
      with that(2) show ?thesis
        unfolding e_def by linarith
    next
      assume "double x < 1"
      with k0 show ?thesis by simp
    qed
    with a show ?thesis
      by (simp add: floor_eq_iff)
  qed
  have 2: "of_int k \<le> x * e \<and> x < of_int (k + 1)" if "\<lfloor>double x\<rfloor> = k"
  proof
    from that have a: "of_int k \<le> double x" and b: "double x < of_int (k + 1)"
      by (simp_all add: floor_eq_iff)
    from b show "x < of_int (k + 1)"
      by (rule double_less_int [OF x0 x2])
    show "of_int k \<le> x * e"
      using double_upper_small [OF x0]
    proof
      assume "double x \<le> x * (1 + 1 / 2 ^ 53)"
      with a show ?thesis
        unfolding e_def by linarith
    next
      assume "double x < 1"
      with a have "k \<le> 0" by linarith
      then have "real_of_int k \<le> 0" by simp
      also have "0 \<le> x * e"
        using x0 e(1) by simp
      finally show ?thesis .
    qed
  qed
  from 1 2 show ?thesis
    unfolding le less less' [unfolded e_def] le' [unfolded e_def] x_def e_def by blast
qed

section \<open>Evaluation, tautology check and solver: basic facts\<close>

lemma popcount_arith_mod: "popcount_arith x = popcount_arith (x mod 2 ^ 32)"
proof -
  define t where "t = x mod 2 ^ 32"
  define h where "h = x div 2 ^ 32"
  have x: "x = t + 2 ^ 32 * h"
    by (simp add: t_def h_def)
  have t: "0 \<le> t" "t < 2 ^ 32"
    by (simp_all add: t_def)
  have m: "(y + 2 ^ 32 * h) AND m = y AND m" if "0 \<le> y" "y < 2 ^ 32" "0 \<le> m" "m < 2 ^ 32" for y m
    using and_cat [of y 32 m h 0] that by simp
  define t1 where "t1 = t - (t AND 0xAAAAAAAA) div 2"
  have a: "0 \<le> (t AND 0xAAAAAAAA)" "(t AND 0xAAAAAAAA) \<le> t"
    using t by (simp_all add: AND_upper1)
  have "0 \<le> (t AND 0xAAAAAAAA) div 2" "(t AND 0xAAAAAAAA) div 2 \<le> t"
    using a by linarith+
  then have t1: "0 \<le> t1" "t1 < 2 ^ 32"
    using t unfolding t1_def by linarith+
  have 1: "x - (x AND 0xAAAAAAAA) div 2 = t1 + 2 ^ 32 * h"
    unfolding x t1_def using m [OF t, of "0xAAAAAAAA"] by simp
  have 2: "(t1 + 2 ^ 32 * h) AND 0x33333333 = t1 AND 0x33333333"
    "(t1 + 2 ^ 32 * h) AND 0xCCCCCCCC = t1 AND 0xCCCCCCCC"
    using m [OF t1] by simp_all
  show ?thesis
    unfolding popcount_arith_def Let_def 1 2 t_def [symmetric] t1_def [symmetric] ..
qed

lemma popcount_total: "popcount x = naive_popcount (toUint32 x)"
proof -
  have "0 \<le> x mod 2 ^ 32" "x mod 2 ^ 32 < 2 ^ 32"
    by simp_all
  then have "popcount_arith (x mod 2 ^ 32) = naive_count 32 (x mod 2 ^ 32)"
    by (rule popcount_arith_naive)
  then show ?thesis
    by (simp only: popcount_arith naive_popcount_def toUint32_def popcount_arith_mod [of x])
qed

lemma popcount_range: "0 \<le> popcount x \<and> popcount x \<le> 32"
  using naive_count_bounds [of 32 "toUint32 x"] by (simp add: popcount_total naive_popcount_def)

lemma shiftCount_less: "shiftCount k < 32"
  by (simp add: shiftCount_def nat_less_iff)

lemma bit_test: "(js_and (js_shr v k) 1 \<noteq> 0) = bit v (shiftCount k)"
proof -
  have "js_and (js_shr v k) 1 = signed_take_bit 31 (drop_bit (shiftCount k) (signed_take_bit 31 v)) AND 1"
    by (simp add: js_and_def js_shr_def toInt32_stb drop_bit_eq_div signed_take_bit_int_eq_self)
  also have "\<dots> \<noteq> 0 \<longleftrightarrow> bit (signed_take_bit 31 v) (shiftCount k)"
    by (simp add: and_one_eq bit_iff_odd_drop_bit mod_2_eq_odd even_signed_take_bit_iff)
  also have "\<dots> \<longleftrightarrow> bit v (shiftCount k)"
  proof -
    have "min 31 (shiftCount k) = shiftCount k"
      using shiftCount_less [of k] by simp
    then show ?thesis
      by (simp add: bit_signed_take_bit_iff)
  qed
  finally show ?thesis .
qed

lemma allConsistent_iff: "allConsistent \<sigma> ss a \<longleftrightarrow> (\<forall>s \<in> set ss. isConsistentOn \<sigma> s a)"
  by (induction ss) simp_all

lemma solutionsTo_loop_filter:
  "solutionsTo_loop \<sigma> ss bound p = filter (allConsistent \<sigma> ss) [p..bound - 1]"
proof (induction \<sigma> ss bound p rule: solutionsTo_loop.induct)
  case (1 \<sigma> ss bound p)
  show ?case
  proof (cases "p < bound")
    case True
    then have "[p..bound - 1] = p # [p + 1..bound - 1]"
      by (simp add: upto_rec1)
    with True 1 show ?thesis
      by (subst solutionsTo_loop.simps) simp
  next
    case False
    then show ?thesis
      by (subst solutionsTo_loop.simps) simp
  qed
qed

lemma js_shl_1: "0 \<le> n \<Longrightarrow> n \<le> 30 \<Longrightarrow> js_shl 1 n = 2 ^ nat n"
proof -
  assume n: "0 \<le> n" "n \<le> 30"
  then have s: "shiftCount n = nat n"
    by (simp add: shiftCount_def)
  have p: "(0 :: int) < 2 ^ nat n"
    by simp
  have "(2 :: int) ^ nat n \<le> 2 ^ 30"
    using n by (intro power_increasing) simp_all
  then have u: "(2 :: int) ^ nat n \<le> 1073741824"
    by simp
  have b: "- 2147483648 \<le> (2 :: int) ^ nat n" "(2 :: int) ^ nat n < 2147483648"
    using p u by linarith+
  have "signed_take_bit 31 ((2 :: int) ^ nat n) = 2 ^ nat n"
    by (rule signed_take_bit_int_eq_self) (use b in simp_all)
  then show ?thesis
    by (simp add: js_shl_def s toInt32_stb signed_take_bit_int_eq_self)
qed

lemma isConsistentOn_bit:
  "isConsistentOn \<sigma> s a \<longleftrightarrow> isTrueOn s a = bit a (shiftCount (speakerIndex (\<sigma> ! context_of s)))"
  by (simp add: isConsistentOn_def bit_test)

lemma isTautology_loop_iff:
  "isTautology_loop s bound p \<longleftrightarrow> (\<forall>a. p \<le> a \<and> a < bound \<longrightarrow> isTrueOn s a)"
proof (induction s bound p rule: isTautology_loop.induct)
  case (1 s bound p)
  show ?case
  proof (cases "p < bound")
    case True
    have "(\<forall>a. p \<le> a \<and> a < bound \<longrightarrow> isTrueOn s a)
          \<longleftrightarrow> isTrueOn s p \<and> (\<forall>a. p + 1 \<le> a \<and> a < bound \<longrightarrow> isTrueOn s a)"
      using True by (metis add1_zle_eq order_le_less)
    with True 1 show ?thesis
      by (subst isTautology_loop.simps) auto
  next
    case False
    then show ?thesis
      by (subst isTautology_loop.simps) auto
  qed
qed

section \<open>Random construction: frame and shape of the results\<close>

lemma extends_refl: "extends w w"
  by (auto simp: extends_def)

lemma extends_trans: "extends w1 w2 \<Longrightarrow> extends w2 w3 \<Longrightarrow> extends w1 w3"
  by (auto simp: extends_def)

lemma andThen_simps [simp]:
  "andThen None f = None"
  "andThen (Some (Inl e, w)) f = Some (Inl e, w)"
  "andThen (Some (Inr x, w)) f = f x w"
  by (simp_all add: andThen_def)

lemma andThen_SomeE:
  assumes "andThen m f = Some (res, w')"
  obtains (thrown) e where "m = Some (Inl e, w')" "res = Inl e"
  | (returned) x w1 where "m = Some (Inr x, w1)" "f x w1 = Some (res, w')"
  using assms by (auto simp: andThen_def split: option.splits sum.splits prod.splits)

lemma Math_random_Some:
  "Math_random w = Some (res, w') \<Longrightarrow> \<exists>r. res = Inr r \<and> snd w = r # snd w' \<and> fst w' = fst w"
  by (auto simp: Math_random_def split: list.splits)

lemma Math_random_extends: "Math_random w = Some (res, w') \<Longrightarrow> extends w w'"
  by (drule Math_random_Some) (auto simp: extends_def)

lemma TrueFalseStatement_random_Some:
  assumes "TrueFalseStatement_random context w = Some (res, w')"
  shows "extends w w' \<and> (\<exists>i b. res = Inr (TrueFalseStatement context i b))"
  using assms unfolding TrueFalseStatement_random_def Let_def
  by (auto elim!: andThen_SomeE dest!: Math_random_Some simp: extends_def)

lemma drawSubjectBits_Some:
  "drawSubjectBits n tape = Some (sb, rest) \<Longrightarrow>
     \<exists>used r. tape = used @ r # rest \<and> sb = \<lfloor>r * of_int (js_shl 1 n)\<rfloor> \<and> \<not> popcount sb \<le> 1"
proof (induction tape)
  case Nil
  then show ?case by simp
next
  case (Cons r tape)
  show ?case
  proof (cases "popcount \<lfloor>r * of_int (js_shl 1 n)\<rfloor> \<le> 1")
    case True
    with Cons obtain used r' where "tape = used @ r' # rest" "sb = \<lfloor>r' * of_int (js_shl 1 n)\<rfloor>"
      "\<not> popcount sb \<le> 1"
      by (auto simp: Let_def)
    then show ?thesis
      by (intro exI [of _ "r # used"] exI [of _ r']) simp
  next
    case False
    with Cons.prems show ?thesis
      by (intro exI [of _ "[]"] exI [of _ r]) (auto simp: Let_def)
  qed
qed

lemma TypeCountStatement_random_Some:
  assumes "TypeCountStatement_random context w = Some (res, w')"
  shows "extends w w' \<and> (\<exists>sb lb. res = Inr (TypeCountStatement context sb lb))"
proof -
  from assms obtain sb rest where d: "drawSubjectBits (personCount (fst w ! context)) (snd w) = Some (sb, rest)"
    and a: "andThen (Math_random (fst w, rest)) (\<lambda>r w1.
               let liarCountBits = \<lfloor>r * of_int (js_shl 1 (popcount sb + 1) - 2)\<rfloor> + 1
               in Some (Inr (TypeCountStatement context sb liarCountBits), w1)) = Some (res, w')"
    by (auto simp: TypeCountStatement_random_def Let_def split: option.splits)
  from drawSubjectBits_Some [OF d] obtain used r where u: "snd w = used @ r # rest"
    by blast
  from a show ?thesis
    by (auto elim!: andThen_SomeE dest!: Math_random_Some simp: extends_def u Let_def)
qed

lemma alloc_update:
  "(\<sigma> @ [c])[length \<sigma> := v] = \<sigma> @ [v]"
  by simp

lemma from_extends:
  "LogicalStatementContext_from other \<sigma> = (r, \<sigma>') \<Longrightarrow> r = length \<sigma> \<and> (\<exists>c. \<sigma>' = \<sigma> @ [c])"
  by (auto simp: LogicalStatementContext_from_def new_LogicalStatementContext_def)

lemma set_fresh:
  "set_isRoot (length \<sigma>) v (\<sigma> @ [c]) = \<sigma> @ [c\<lparr>isRoot := v\<rparr>]"
  "set_shouldUseGa (length \<sigma>) v (\<sigma> @ [c]) = \<sigma> @ [c\<lparr>shouldUseGa := v\<rparr>]"
  "set_preconditionPredicate (length \<sigma>) p (\<sigma> @ [c]) = \<sigma> @ [c\<lparr>preconditionPredicate := p\<rparr>]"
  by (simp_all add: set_isRoot_def set_shouldUseGa_def set_preconditionPredicate_def)

lemma extends_alloc: "extends (\<sigma>, t) w' \<Longrightarrow> extends (\<sigma>0, t) (\<sigma>, t) \<Longrightarrow> extends (\<sigma>0, t) w'"
  by (rule extends_trans)

lemma extends_store: "extends (\<sigma> @ fresh, t) w' \<Longrightarrow> extends (\<sigma>, t) w'"
  by (auto simp: extends_def)

lemma extends_store': "extends (fst w1 @ fresh, snd w1) w' \<Longrightarrow> extends w1 w'"
  by (auto simp: extends_def)

lemma frame_all:
  "(\<forall>cs ps ws ctx w res w'. randomStatement_loop n cs ps ws ctx w = Some (res, w') \<longrightarrow> extends w w')
 \<and> (\<forall>ctx w res w'. LogicalAndStatement_random n ctx w = Some (res, w') \<longrightarrow> extends w w')
 \<and> (\<forall>ctx w res w'. LogicalOrStatement_random n ctx w = Some (res, w') \<longrightarrow> extends w w')
 \<and> (\<forall>ctx w res w'. LogicalIfStatement_random n ctx w = Some (res, w') \<longrightarrow> extends w w')"
proof (induction n)
  case 0
  show ?case
    by (simp add: randomStatement_loop.simps LogicalAndStatement_random.simps
        LogicalOrStatement_random.simps LogicalIfStatement_random.simps)
next
  case (Suc n)
  then have L: "\<And>cs ps ws ctx w res w'. randomStatement_loop n cs ps ws ctx w = Some (res, w') \<Longrightarrow> extends w w'"
    and A: "\<And>ctx w res w'. LogicalAndStatement_random n ctx w = Some (res, w') \<Longrightarrow> extends w w'"
    and O: "\<And>ctx w res w'. LogicalOrStatement_random n ctx w = Some (res, w') \<Longrightarrow> extends w w'"
    and I: "\<And>ctx w res w'. LogicalIfStatement_random n ctx w = Some (res, w') \<Longrightarrow> extends w w'"
    by blast+
  have R: "extends w w'" if "randomStatement n ctx ml w = Some (res, w')" for ctx ml w res w'
    using that L by (auto simp: randomStatement.simps Let_def extends_refl split: if_splits)
  have A': "extends w w'" if "LogicalAndStatement_random (Suc n) ctx w = Some (res, w')" for ctx w res w'
    using that
    by (cases w)
      (auto simp: LogicalAndStatement_random.simps LogicalStatementContext_from_def
        new_LogicalStatementContext_def set_fresh Let_def split: if_splits
        elim!: andThen_SomeE dest!: R A extends_store extends_store'; blast intro: extends_trans)
  have O': "extends w w'" if "LogicalOrStatement_random (Suc n) ctx w = Some (res, w')" for ctx w res w'
    using that
    by (cases w)
      (auto simp: LogicalOrStatement_random.simps LogicalStatementContext_from_def
        new_LogicalStatementContext_def set_fresh Let_def split: if_splits
        elim!: andThen_SomeE dest!: R O extends_store extends_store'; blast intro: extends_trans)
  have I': "extends w w'" if "LogicalIfStatement_random (Suc n) ctx w = Some (res, w')" for ctx w res w'
    using that
    by (cases w)
      (auto simp: LogicalIfStatement_random.simps LogicalStatementContext_from_def
        new_LogicalStatementContext_def set_fresh Let_def split: if_splits
        elim!: andThen_SomeE dest!: R I extends_store extends_store'; blast intro: extends_trans)
  have L': "extends w w'" if "randomStatement_loop (Suc n) cs ps ws ctx w = Some (res, w')"
    for cs ps ws ctx w res w'
    using that
    by (auto simp: randomStatement_loop.simps Let_def
        split: if_splits sum.splits StatementClass.splits
        elim!: andThen_SomeE
        dest!: L A O I Math_random_extends TrueFalseStatement_random_Some TypeCountStatement_random_Some;
        blast intro: extends_trans)
  from A' O' I' L' show ?case
    by blast
qed


lemma frame_loop:
  "randomStatement_loop n cs ps ws ctx w = Some (res, w') \<Longrightarrow> extends w w'"
  using frame_all [of n] by blast

lemma frame_And: "LogicalAndStatement_random n ctx w = Some (res, w') \<Longrightarrow> extends w w'"
  using frame_all [of n] by blast

lemma frame_Or: "LogicalOrStatement_random n ctx w = Some (res, w') \<Longrightarrow> extends w w'"
  using frame_all [of n] by blast

lemma frame_If: "LogicalIfStatement_random n ctx w = Some (res, w') \<Longrightarrow> extends w w'"
  using frame_all [of n] by blast

lemma frame_randomStatement:
  "randomStatement n ctx ml w = Some (res, w') \<Longrightarrow> extends w w'"
  by (auto simp: randomStatement.simps Let_def extends_refl split: if_splits dest: frame_loop)

lemma extends_length: "extends w w' \<Longrightarrow> length (fst w) \<le> length (fst w')"
  by (auto simp: extends_def)

lemma firstBelow_bound: "firstBelow r ps i = Some j \<Longrightarrow> j < i + length ps"
  by (induction ps arbitrary: i) (fastforce split: if_splits)+

lemma chooseIndex_less: "0 < n \<Longrightarrow> length ps = n \<Longrightarrow> chooseIndex r ps n < n"
  by (auto simp: chooseIndex_def split: option.splits dest: firstBelow_bound)

lemma length_partialSums: "length (partialSums a ws) = length ws"
  by (induction ws arbitrary: a) simp_all

lemma renderable_subjectBitsArray: "renderable s \<Longrightarrow> \<exists>arr. subjectBitsArray s = Inr arr"
  by (induction s) auto

lemma shape_all:
  "(\<forall>cs ps ws ctx w res w'. randomStatement_loop n cs ps ws ctx w = Some (res, w')
       \<longrightarrow> cs \<noteq> [] \<longrightarrow> length ps = length cs \<longrightarrow> produced cs ctx res)
 \<and> (\<forall>ctx w res w'. LogicalAndStatement_random n ctx w = Some (res, w')
       \<longrightarrow> compound LogicalAndStatement ctx w res)
 \<and> (\<forall>ctx w res w'. LogicalOrStatement_random n ctx w = Some (res, w')
       \<longrightarrow> compound LogicalOrStatement ctx w res)
 \<and> (\<forall>ctx w res w'. LogicalIfStatement_random n ctx w = Some (res, w')
       \<longrightarrow> compound LogicalIfStatement ctx w res)"
proof (induction n)
  case 0
  show ?case
    by (simp add: randomStatement_loop.simps LogicalAndStatement_random.simps
        LogicalOrStatement_random.simps LogicalIfStatement_random.simps)
next
  case (Suc n)
  then have L: "\<And>cs ps ws ctx w res w'. randomStatement_loop n cs ps ws ctx w = Some (res, w')
        \<Longrightarrow> cs \<noteq> [] \<Longrightarrow> length ps = length cs \<Longrightarrow> produced cs ctx res"
    and A: "\<And>ctx w res w'. LogicalAndStatement_random n ctx w = Some (res, w')
        \<Longrightarrow> compound LogicalAndStatement ctx w res"
    and O: "\<And>ctx w res w'. LogicalOrStatement_random n ctx w = Some (res, w')
        \<Longrightarrow> compound LogicalOrStatement ctx w res"
    and I: "\<And>ctx w res w'. LogicalIfStatement_random n ctx w = Some (res, w')
        \<Longrightarrow> compound LogicalIfStatement ctx w res"
    by blast+
  have R: "(filter (\<lambda>c. layer_le (nestingLayer c) ml) childStatementClasses = []
             \<and> res = Inl Error \<and> w' = w)
          \<or> produced (filter (\<lambda>c. layer_le (nestingLayer c) ml) childStatementClasses) ctx res"
    if "randomStatement n ctx ml w = Some (res, w')" for ctx ml w res w'
    using that
    by (auto simp: randomStatement.simps Let_def length_partialSums split: if_splits intro!: L)
  have R': "(\<exists>s. res = Inr s \<and> renderable s \<and> context_of s = ctx)
             \<and> length (fst w) \<le> length (fst w')"
    if "randomStatement n ctx (Layer k) w = Some (res, w')" "0 \<le> k" for ctx w res w' k
    using R [OF that(1)] that(2) frame_randomStatement [OF that(1)]
    by (auto simp: childStatementClasses_def produced_def dest: extends_length)
  note A2 = A [unfolded compound_def] and O2 = O [unfolded compound_def]
    and I2 = I [unfolded compound_def]
  have A': "compound LogicalAndStatement ctx w res"
    if "LogicalAndStatement_random (Suc n) ctx w = Some (res, w')" for ctx w res w'
    using that
    by (cases w)
      (auto simp: LogicalAndStatement_random.simps LogicalStatementContext_from_def
        new_LogicalStatementContext_def set_fresh Let_def compound_def split: if_splits
        elim!: andThen_SomeE dest!: R' A2; fastforce)
  have O': "compound LogicalOrStatement ctx w res"
    if "LogicalOrStatement_random (Suc n) ctx w = Some (res, w')" for ctx w res w'
    using that
    by (cases w)
      (auto simp: LogicalOrStatement_random.simps LogicalStatementContext_from_def
        new_LogicalStatementContext_def set_fresh Let_def compound_def split: if_splits
        elim!: andThen_SomeE dest!: R' O2; fastforce)
  have I': "compound LogicalIfStatement ctx w res"
    if "LogicalIfStatement_random (Suc n) ctx w = Some (res, w')" for ctx w res w'
    using that
    by (cases w)
      (auto simp: LogicalIfStatement_random.simps LogicalStatementContext_from_def
        new_LogicalStatementContext_def set_fresh Let_def compound_def split: if_splits
        elim!: andThen_SomeE dest!: R' I2; fastforce)
  have CR: "\<exists>s. r = Inr s \<and> renderable s \<and> context_of s = ctx \<and> class_of s = Some c"
    if "(case c of
           TrueFalse \<Rightarrow> TrueFalseStatement_random ctx w1
         | TypeCount \<Rightarrow> TypeCountStatement_random ctx w1
         | LogicalAnd \<Rightarrow> LogicalAndStatement_random n ctx w1
         | LogicalOr \<Rightarrow> LogicalOrStatement_random n ctx w1
         | LogicalIf \<Rightarrow> LogicalIfStatement_random n ctx w1) = Some (r, w2)"
    for c ctx w1 r w2
    using that
    by (cases c)
      (auto dest!: TrueFalseStatement_random_Some TypeCountStatement_random_Some A2 O2 I2)
  have L': "produced cs ctx res"
    if "randomStatement_loop (Suc n) cs ps ws ctx w = Some (res, w')" "cs \<noteq> []"
      "length ps = length cs" for cs ps ws ctx w res w'
  proof -
    from that(1) obtain rnd w1 where m: "Math_random w = Some (Inr rnd, w1)"
      by (auto simp: randomStatement_loop.simps elim!: andThen_SomeE dest: Math_random_Some)
    define c where "c = cs ! chooseIndex (rnd * ws) ps (length cs)"
    have mem: "c \<in> set cs"
      unfolding c_def using that(2,3) by (intro nth_mem chooseIndex_less) simp_all
    from that(1) m have "andThen
            (case c of
               TrueFalse \<Rightarrow> TrueFalseStatement_random ctx w1
             | TypeCount \<Rightarrow> TypeCountStatement_random ctx w1
             | LogicalAnd \<Rightarrow> LogicalAndStatement_random n ctx w1
             | LogicalOr \<Rightarrow> LogicalOrStatement_random n ctx w1
             | LogicalIf \<Rightarrow> LogicalIfStatement_random n ctx w1)
            (\<lambda>randomStatement w2.
               case subjectBitsArray randomStatement of
                 Inl e \<Rightarrow> Some (Inl e, w2)
               | Inr array \<Rightarrow>
                   if hasDuplicate array
                   then randomStatement_loop n cs ps ws ctx w2
                   else Some (Inr randomStatement, w2)) = Some (res, w')"
      by (simp add: randomStatement_loop.simps Let_def c_def)
    then show ?thesis
    proof (cases rule: andThen_SomeE)
      case (thrown e)
      with CR show ?thesis by blast
    next
      case (returned s w2)
      from CR [OF returned(1)] have s: "renderable s" "context_of s = ctx" "class_of s = Some c"
        by auto
      from renderable_subjectBitsArray [OF s(1)] obtain arr where arr: "subjectBitsArray s = Inr arr"
        by blast
      show ?thesis
      proof (cases "hasDuplicate arr")
        case True
        with returned(2) arr have "randomStatement_loop n cs ps ws ctx w2 = Some (res, w')"
          by simp
        then show ?thesis
          using that(2,3) by (rule L)
      next
        case False
        with returned(2) arr have "res = Inr s"
          by simp
        with s arr False mem show ?thesis
          by (auto simp: produced_def)
      qed
    qed
  qed
  from A' O' I' L' show ?case
    by blast
qed

lemma hasDuplicate_loop_iff:
  "hasDuplicate_loop S xs \<longleftrightarrow> \<not> distinct xs \<or> set xs \<inter> S \<noteq> {}"
  by (induction xs arbitrary: S) auto

lemma hasDuplicate_iff: "hasDuplicate xs \<longleftrightarrow> \<not> distinct xs"
  by (simp add: hasDuplicate_def hasDuplicate_loop_iff)

lemma shape_loop:
  "randomStatement_loop n cs ps ws ctx w = Some (res, w') \<Longrightarrow> cs \<noteq> [] \<Longrightarrow> length ps = length cs
     \<Longrightarrow> produced cs ctx res"
  using shape_all [of n] by blast

lemma shape_And:
  "LogicalAndStatement_random n ctx w = Some (res, w') \<Longrightarrow> compound LogicalAndStatement ctx w res"
  using shape_all [of n] by blast

lemma shape_Or:
  "LogicalOrStatement_random n ctx w = Some (res, w') \<Longrightarrow> compound LogicalOrStatement ctx w res"
  using shape_all [of n] by blast

lemma shape_If:
  "LogicalIfStatement_random n ctx w = Some (res, w') \<Longrightarrow> compound LogicalIfStatement ctx w res"
  using shape_all [of n] by blast

lemma no_choice:
  "filter (\<lambda>c. layer_le (nestingLayer c) ml) childStatementClasses = [] \<longleftrightarrow> (\<exists>k. ml = Layer k \<and> k < 0)"
  by (cases ml) (auto simp: childStatementClasses_def)

lemma randomStatement_no_choice:
  assumes "filter (\<lambda>c. layer_le (nestingLayer c) ml) childStatementClasses = []"
  shows "randomStatement n ctx ml w = Some (Inl Error, w)"
  using assms by (simp add: randomStatement.simps)

lemma randomStatement_choice:
  assumes "randomStatement n ctx ml w = Some (res, w')"
    and "filter (\<lambda>c. layer_le (nestingLayer c) ml) childStatementClasses \<noteq> []"
  shows "produced (filter (\<lambda>c. layer_le (nestingLayer c) ml) childStatementClasses) ctx res"
  using assms
  by (auto simp: randomStatement.simps Let_def length_partialSums split: if_splits
      intro!: shape_loop)

lemma And_checks:
  "LogicalAndStatement_random n ctx w = Some (Inr s, w') \<Longrightarrow>
     \<exists>s1 s2. s = LogicalAndStatement ctx s1 s2 \<and> \<not> implies_stmt (fst w') s1 s
        \<and> \<not> implies_stmt (fst w') s2 s \<and> \<not> isTautology (fst w') (BasicLogicalNotStatement s)"
proof (induction n arbitrary: w)
  case 0
  then show ?case by (simp add: LogicalAndStatement_random.simps)
next
  case (Suc n)
  from Suc.prems show ?case
    by (cases w)
      (auto simp: LogicalAndStatement_random.simps Let_def split: if_splits prod.splits
        elim!: andThen_SomeE dest!: Suc.IH)
qed

lemma Or_checks:
  "LogicalOrStatement_random n ctx w = Some (Inr s, w') \<Longrightarrow>
     \<exists>s1 s2. s = LogicalOrStatement ctx s1 s2 \<and> \<not> implies_stmt (fst w') s s1
        \<and> \<not> implies_stmt (fst w') s s2 \<and> \<not> isTautology (fst w') s"
proof (induction n arbitrary: w)
  case 0
  then show ?case by (simp add: LogicalOrStatement_random.simps)
next
  case (Suc n)
  from Suc.prems show ?case
    by (cases w)
      (auto simp: LogicalOrStatement_random.simps Let_def split: if_splits prod.splits
        elim!: andThen_SomeE dest!: Suc.IH)
qed

lemma If_checks:
  "LogicalIfStatement_random n ctx w = Some (Inr s, w') \<Longrightarrow>
     \<exists>s1 s2. s = LogicalIfStatement ctx s1 s2
        \<and> \<not> implies_stmt (fst w') s (BasicLogicalNotStatement s1)
        \<and> \<not> implies_stmt (fst w') s s2 \<and> \<not> isTautology (fst w') s"
proof (induction n arbitrary: w)
  case 0
  then show ?case by (simp add: LogicalIfStatement_random.simps)
next
  case (Suc n)
  from Suc.prems show ?case
    by (cases w)
      (auto simp: LogicalIfStatement_random.simps Let_def split: if_splits prod.splits
        elim!: andThen_SomeE dest!: Suc.IH)
qed

lemma implies_Or_left: "implies_stmt \<sigma> s1 (LogicalOrStatement c s1 s2)"
  by (simp add: implies_stmt_def isTautology_def isTautology_loop_iff)

lemma implies_Or_right: "implies_stmt \<sigma> s2 (LogicalOrStatement c s1 s2)"
  by (simp add: implies_stmt_def isTautology_def isTautology_loop_iff)

text \<open>The statements built refer to contexts of the store, and rendering reads no others.\<close>

lemma allocated_append: "allocated \<sigma> s \<Longrightarrow> allocated (\<sigma> @ fresh) s"
  by (induction s) auto

lemma allocated_extends: "extends w w' \<Longrightarrow> allocated (fst w) s \<Longrightarrow> allocated (fst w') s"
  by (auto simp: extends_def allocated_append)

lemma extends_less: "extends w w' \<Longrightarrow> c < length (fst w) \<Longrightarrow> c < length (fst w')"
  by (auto simp: extends_def)

lemma sentence_append: "allocated \<sigma> s \<Longrightarrow> sentence (\<sigma> @ fresh) s = sentence \<sigma> s"
  by (induction s) (auto simp: nth_append split: sum.splits)

lemma allocated_all:
  "(\<forall>cs ps ws ctx w s w'. randomStatement_loop n cs ps ws ctx w = Some (Inr s, w')
       \<longrightarrow> ctx < length (fst w) \<longrightarrow> allocated (fst w') s)
 \<and> (\<forall>ctx w s w'. LogicalAndStatement_random n ctx w = Some (Inr s, w')
       \<longrightarrow> ctx < length (fst w) \<longrightarrow> allocated (fst w') s)
 \<and> (\<forall>ctx w s w'. LogicalOrStatement_random n ctx w = Some (Inr s, w')
       \<longrightarrow> ctx < length (fst w) \<longrightarrow> allocated (fst w') s)
 \<and> (\<forall>ctx w s w'. LogicalIfStatement_random n ctx w = Some (Inr s, w')
       \<longrightarrow> ctx < length (fst w) \<longrightarrow> allocated (fst w') s)"
proof (induction n)
  case 0
  show ?case
    by (simp add: randomStatement_loop.simps LogicalAndStatement_random.simps
        LogicalOrStatement_random.simps LogicalIfStatement_random.simps)
next
  case (Suc n)
  then have L: "\<And>cs ps ws ctx w s w'. randomStatement_loop n cs ps ws ctx w = Some (Inr s, w')
        \<Longrightarrow> ctx < length (fst w) \<Longrightarrow> allocated (fst w') s"
    and A: "\<And>ctx w s w'. LogicalAndStatement_random n ctx w = Some (Inr s, w')
        \<Longrightarrow> ctx < length (fst w) \<Longrightarrow> allocated (fst w') s"
    and O: "\<And>ctx w s w'. LogicalOrStatement_random n ctx w = Some (Inr s, w')
        \<Longrightarrow> ctx < length (fst w) \<Longrightarrow> allocated (fst w') s"
    and I: "\<And>ctx w s w'. LogicalIfStatement_random n ctx w = Some (Inr s, w')
        \<Longrightarrow> ctx < length (fst w) \<Longrightarrow> allocated (fst w') s"
    by blast+
  have R: "allocated (fst w') s \<and> extends w w'"
    if "randomStatement n ctx ml w = Some (Inr s, w')" "ctx < length (fst w)" for ctx ml w s w'
    using that frame_randomStatement [OF that(1)]
    by (auto simp: randomStatement.simps Let_def split: if_splits intro: L)
  have A': "allocated (fst w') s"
    if "LogicalAndStatement_random (Suc n) ctx w = Some (Inr s, w')" "ctx < length (fst w)"
    for ctx w s w'
  proof -
    obtain \<sigma> t where w: "w = (\<sigma>, t)" by (cases w)
    from that(1) obtain c1 s1 w3 c2 s2 w6 where
      1: "randomStatement n (length \<sigma>) (Layer 0) (\<sigma> @ [c1], t) = Some (Inr s1, w3)"
      and 2: "randomStatement n (length (fst w3)) (Layer 0) (fst w3 @ [c2], snd w3) = Some (Inr s2, w6)"
      and 3: "s = LogicalAndStatement ctx s1 s2 \<and> w' = w6
              \<or> LogicalAndStatement_random n ctx w6 = Some (Inr s, w')"
      unfolding w
      by (auto simp: LogicalAndStatement_random.simps LogicalStatementContext_from_def
          new_LogicalStatementContext_def set_fresh Let_def split: if_splits
          elim!: andThen_SomeE)
    from R [OF 1] have a1: "allocated (fst w3) s1" and e1: "extends (\<sigma> @ [c1], t) w3"
      by simp_all
    from R [OF 2] have a2: "allocated (fst w6) s2" and e2: "extends (fst w3 @ [c2], snd w3) w6"
      by simp_all
    from e1 have e1': "extends w w3" unfolding w by (rule extends_store)
    from e2 have e2': "extends w3 w6" by (rule extends_store')
    have c: "ctx < length (fst w6)"
      using that(2) e1' e2' by (blast intro: extends_less)
    from 3 show ?thesis
    proof
      assume "s = LogicalAndStatement ctx s1 s2 \<and> w' = w6"
      then show ?thesis
        using a1 a2 c e2' by (auto intro: allocated_extends)
    next
      assume "LogicalAndStatement_random n ctx w6 = Some (Inr s, w')"
      then show ?thesis using c by (rule A)
    qed
  qed
  have O': "allocated (fst w') s"
    if "LogicalOrStatement_random (Suc n) ctx w = Some (Inr s, w')" "ctx < length (fst w)"
    for ctx w s w'
  proof -
    obtain \<sigma> t where w: "w = (\<sigma>, t)" by (cases w)
    from that(1) obtain c1 s1 w5 s2 w6 where
      1: "randomStatement n (length \<sigma>) (Layer 0) (\<sigma> @ [c1], t) = Some (Inr s1, w5)"
      and 2: "randomStatement n (length \<sigma>) (Layer 0) w5 = Some (Inr s2, w6)"
      and 3: "s = LogicalOrStatement ctx s1 s2 \<and> w' = w6
              \<or> LogicalOrStatement_random n ctx w6 = Some (Inr s, w')"
      unfolding w
      by (auto simp: LogicalOrStatement_random.simps LogicalStatementContext_from_def
          new_LogicalStatementContext_def set_fresh Let_def split: if_splits
          elim!: andThen_SomeE)
    from R [OF 1] have a1: "allocated (fst w5) s1" and e1: "extends (\<sigma> @ [c1], t) w5"
      by simp_all
    from e1 have l: "length \<sigma> < length (fst w5)"
      by (auto dest: extends_length)
    from R [OF 2 l] have a2: "allocated (fst w6) s2" and e2': "extends w5 w6"
      by simp_all
    from e1 have e1': "extends w w5" unfolding w by (rule extends_store)
    have c: "ctx < length (fst w6)"
      using that(2) e1' e2' by (blast intro: extends_less)
    from 3 show ?thesis
    proof
      assume "s = LogicalOrStatement ctx s1 s2 \<and> w' = w6"
      then show ?thesis
        using a1 a2 c e2' by (auto intro: allocated_extends)
    next
      assume "LogicalOrStatement_random n ctx w6 = Some (Inr s, w')"
      then show ?thesis using c by (rule O)
    qed
  qed
  have I': "allocated (fst w') s"
    if "LogicalIfStatement_random (Suc n) ctx w = Some (Inr s, w')" "ctx < length (fst w)"
    for ctx w s w'
  proof -
    obtain \<sigma> t where w: "w = (\<sigma>, t)" by (cases w)
    from that(1) obtain c1 s1 w3 c2 s2 w6 where
      1: "randomStatement n (length \<sigma>) (Layer 1) (\<sigma> @ [c1], t) = Some (Inr s1, w3)"
      and 2: "randomStatement n (length (fst w3)) (Layer 1) (fst w3 @ [c2], snd w3) = Some (Inr s2, w6)"
      and 3: "s = LogicalIfStatement ctx s1 s2 \<and> w' = w6
              \<or> LogicalIfStatement_random n ctx w6 = Some (Inr s, w')"
      unfolding w
      by (auto simp: LogicalIfStatement_random.simps LogicalStatementContext_from_def
          new_LogicalStatementContext_def set_fresh Let_def split: if_splits
          elim!: andThen_SomeE)
    from R [OF 1] have a1: "allocated (fst w3) s1" and e1: "extends (\<sigma> @ [c1], t) w3"
      by simp_all
    from R [OF 2] have a2: "allocated (fst w6) s2" and e2: "extends (fst w3 @ [c2], snd w3) w6"
      by simp_all
    from e1 have e1': "extends w w3" unfolding w by (rule extends_store)
    from e2 have e2': "extends w3 w6" by (rule extends_store')
    have c: "ctx < length (fst w6)"
      using that(2) e1' e2' by (blast intro: extends_less)
    from 3 show ?thesis
    proof
      assume "s = LogicalIfStatement ctx s1 s2 \<and> w' = w6"
      then show ?thesis
        using a1 a2 c e2' by (auto intro: allocated_extends)
    next
      assume "LogicalIfStatement_random n ctx w6 = Some (Inr s, w')"
      then show ?thesis using c by (rule I)
    qed
  qed
  have CR: "allocated (fst w2) s \<and> extends w1 w2"
    if "(case c of
           TrueFalse \<Rightarrow> TrueFalseStatement_random ctx w1
         | TypeCount \<Rightarrow> TypeCountStatement_random ctx w1
         | LogicalAnd \<Rightarrow> LogicalAndStatement_random n ctx w1
         | LogicalOr \<Rightarrow> LogicalOrStatement_random n ctx w1
         | LogicalIf \<Rightarrow> LogicalIfStatement_random n ctx w1) = Some (Inr s, w2)"
      "ctx < length (fst w1)"
    for c ctx w1 s w2
  proof (cases c)
    case TrueFalse
    with that TrueFalseStatement_random_Some [of ctx w1 "Inr s" w2] show ?thesis
      by (auto dest: extends_less)
  next
    case TypeCount
    with that TypeCountStatement_random_Some [of ctx w1 "Inr s" w2] show ?thesis
      by (auto dest: extends_less)
  next
    case LogicalAnd
    with that show ?thesis by (auto dest: frame_And intro: A)
  next
    case LogicalOr
    with that show ?thesis by (auto dest: frame_Or intro: O)
  next
    case LogicalIf
    with that show ?thesis by (auto dest: frame_If intro: I)
  qed
  have L': "allocated (fst w') s"
    if "randomStatement_loop (Suc n) cs ps ws ctx w = Some (Inr s, w')" "ctx < length (fst w)"
    for cs ps ws ctx w s w'
  proof -
    from that(1) obtain rnd w1 where m: "Math_random w = Some (Inr rnd, w1)"
      by (auto simp: randomStatement_loop.simps elim!: andThen_SomeE dest: Math_random_Some)
    then have l1: "ctx < length (fst w1)"
      using that(2) by (auto dest: Math_random_Some)
    define c where "c = cs ! chooseIndex (rnd * ws) ps (length cs)"
    from that(1) m have "andThen
            (case c of
               TrueFalse \<Rightarrow> TrueFalseStatement_random ctx w1
             | TypeCount \<Rightarrow> TypeCountStatement_random ctx w1
             | LogicalAnd \<Rightarrow> LogicalAndStatement_random n ctx w1
             | LogicalOr \<Rightarrow> LogicalOrStatement_random n ctx w1
             | LogicalIf \<Rightarrow> LogicalIfStatement_random n ctx w1)
            (\<lambda>randomStatement w2.
               case subjectBitsArray randomStatement of
                 Inl e \<Rightarrow> Some (Inl e, w2)
               | Inr array \<Rightarrow>
                   if hasDuplicate array
                   then randomStatement_loop n cs ps ws ctx w2
                   else Some (Inr randomStatement, w2)) = Some (Inr s, w')"
      by (simp add: randomStatement_loop.simps Let_def c_def)
    then show ?thesis
    proof (cases rule: andThen_SomeE)
      case (thrown e)
      then show ?thesis by simp
    next
      case (returned s0 w2)
      from CR [OF returned(1) l1] have a: "allocated (fst w2) s0" and e: "extends w1 w2"
        by simp_all
      from e l1 have l2: "ctx < length (fst w2)"
        by (rule extends_less)
      from returned(2) show ?thesis
        using a l2 by (auto split: sum.splits if_splits intro: L)
    qed
  qed
  from A' O' I' L' show ?case
    by blast
qed

lemma allocated_loop:
  "randomStatement_loop n cs ps ws ctx w = Some (Inr s, w') \<Longrightarrow> ctx < length (fst w)
     \<Longrightarrow> allocated (fst w') s"
  using allocated_all [of n] by blast

lemma allocated_randomStatement:
  assumes "randomStatement n ctx ml w = Some (Inr s, w')" "ctx < length (fst w)"
  shows "allocated (fst w') s"
  using assms
  by (auto simp: randomStatement.simps Let_def split: if_splits intro: allocated_loop)

text \<open>
  The constructors allocate only copies of contexts, so no new person count appears in the
  store; with person counts that are array lengths, rendering never throws.
\<close>

lemma personCounts_copy:
  "k < length \<sigma> \<Longrightarrow> personCount c = personCount (\<sigma> ! k) \<Longrightarrow> personCounts (\<sigma> @ [c]) = personCounts \<sigma>"
  by (auto simp: personCounts_def)

lemma TrueFalseStatement_random_store:
  "TrueFalseStatement_random ctx w = Some (res, w') \<Longrightarrow> fst w' = fst w"
  unfolding TrueFalseStatement_random_def Let_def
  by (auto elim!: andThen_SomeE dest!: Math_random_Some)

lemma TypeCountStatement_random_store:
  "TypeCountStatement_random ctx w = Some (res, w') \<Longrightarrow> fst w' = fst w"
  unfolding TypeCountStatement_random_def Let_def
  by (auto elim!: andThen_SomeE dest!: Math_random_Some split: option.splits)

lemma personCounts_all:
  "(\<forall>cs ps ws ctx w s w'. randomStatement_loop n cs ps ws ctx w = Some (Inr s, w')
       \<longrightarrow> ctx < length (fst w) \<longrightarrow> personCounts (fst w') = personCounts (fst w))
 \<and> (\<forall>ctx w s w'. LogicalAndStatement_random n ctx w = Some (Inr s, w')
       \<longrightarrow> ctx < length (fst w) \<longrightarrow> personCounts (fst w') = personCounts (fst w))
 \<and> (\<forall>ctx w s w'. LogicalOrStatement_random n ctx w = Some (Inr s, w')
       \<longrightarrow> ctx < length (fst w) \<longrightarrow> personCounts (fst w') = personCounts (fst w))
 \<and> (\<forall>ctx w s w'. LogicalIfStatement_random n ctx w = Some (Inr s, w')
       \<longrightarrow> ctx < length (fst w) \<longrightarrow> personCounts (fst w') = personCounts (fst w))"
proof (induction n)
  case 0
  show ?case
    by (simp add: randomStatement_loop.simps LogicalAndStatement_random.simps
        LogicalOrStatement_random.simps LogicalIfStatement_random.simps)
next
  case (Suc n)
  then have L: "\<And>cs ps ws ctx w s w'. randomStatement_loop n cs ps ws ctx w = Some (Inr s, w')
        \<Longrightarrow> ctx < length (fst w) \<Longrightarrow> personCounts (fst w') = personCounts (fst w)"
    and A: "\<And>ctx w s w'. LogicalAndStatement_random n ctx w = Some (Inr s, w')
        \<Longrightarrow> ctx < length (fst w) \<Longrightarrow> personCounts (fst w') = personCounts (fst w)"
    and O: "\<And>ctx w s w'. LogicalOrStatement_random n ctx w = Some (Inr s, w')
        \<Longrightarrow> ctx < length (fst w) \<Longrightarrow> personCounts (fst w') = personCounts (fst w)"
    and I: "\<And>ctx w s w'. LogicalIfStatement_random n ctx w = Some (Inr s, w')
        \<Longrightarrow> ctx < length (fst w) \<Longrightarrow> personCounts (fst w') = personCounts (fst w)"
    by blast+
  have R: "personCounts (fst w') = personCounts (fst w) \<and> extends w w'"
    if "randomStatement n ctx ml w = Some (Inr s, w')" "ctx < length (fst w)" for ctx ml w s w'
    using that frame_randomStatement [OF that(1)]
    by (auto simp: randomStatement.simps Let_def split: if_splits dest: L)
  have A': "personCounts (fst w') = personCounts (fst w)"
    if "LogicalAndStatement_random (Suc n) ctx w = Some (Inr s, w')" "ctx < length (fst w)"
    for ctx w s w'
  proof -
    obtain \<sigma> t where w: "w = (\<sigma>, t)" by (cases w)
    from that(1) obtain c1 s1 w3 c2 s2 w6 where
      1: "randomStatement n (length \<sigma>) (Layer 0) (\<sigma> @ [c1], t) = Some (Inr s1, w3)"
      and p1: "personCount c1 = personCount (\<sigma> ! ctx)"
      and 2: "randomStatement n (length (fst w3)) (Layer 0) (fst w3 @ [c2], snd w3) = Some (Inr s2, w6)"
      and p2: "personCount c2 = personCount (fst w3 ! length \<sigma>)"
      and 3: "w' = w6 \<or> LogicalAndStatement_random n ctx w6 = Some (Inr s, w')"
      unfolding w
      by (auto simp: LogicalAndStatement_random.simps LogicalStatementContext_from_def
          new_LogicalStatementContext_def set_fresh Let_def split: if_splits
          elim!: andThen_SomeE)
    from that(2) have c: "ctx < length \<sigma>" unfolding w by simp
    from R [OF 1] have a1: "personCounts (fst w3) = personCounts (\<sigma> @ [c1])"
      and e1: "extends (\<sigma> @ [c1], t) w3"
      by simp_all
    from e1 have l: "length \<sigma> < length (fst w3)"
      by (auto dest: extends_length)
    from R [OF 2] have a2: "personCounts (fst w6) = personCounts (fst w3 @ [c2])"
      and e2: "extends (fst w3 @ [c2], snd w3) w6"
      by simp_all
    from e1 have e1': "extends w w3" unfolding w by (rule extends_store)
    from e2 have e2': "extends w3 w6" by (rule extends_store')
    have c6: "ctx < length (fst w6)"
      using that(2) e1' e2' by (blast intro: extends_less)
    have "personCounts (fst w6) = personCounts \<sigma>"
      unfolding a2 personCounts_copy [OF l p2] a1 personCounts_copy [OF c p1] ..
    then have k: "personCounts (fst w6) = personCounts (fst w)"
      unfolding w by simp
    from 3 show ?thesis
    proof
      assume "w' = w6"
      with k show ?thesis by simp
    next
      assume "LogicalAndStatement_random n ctx w6 = Some (Inr s, w')"
      from A [OF this c6] k show ?thesis by simp
    qed
  qed
  have O': "personCounts (fst w') = personCounts (fst w)"
    if "LogicalOrStatement_random (Suc n) ctx w = Some (Inr s, w')" "ctx < length (fst w)"
    for ctx w s w'
  proof -
    obtain \<sigma> t where w: "w = (\<sigma>, t)" by (cases w)
    from that(1) obtain c1 s1 w5 s2 w6 where
      1: "randomStatement n (length \<sigma>) (Layer 0) (\<sigma> @ [c1], t) = Some (Inr s1, w5)"
      and p1: "personCount c1 = personCount (\<sigma> ! ctx)"
      and 2: "randomStatement n (length \<sigma>) (Layer 0) w5 = Some (Inr s2, w6)"
      and 3: "w' = w6 \<or> LogicalOrStatement_random n ctx w6 = Some (Inr s, w')"
      unfolding w
      by (auto simp: LogicalOrStatement_random.simps LogicalStatementContext_from_def
          new_LogicalStatementContext_def set_fresh Let_def split: if_splits
          elim!: andThen_SomeE)
    from that(2) have c: "ctx < length \<sigma>" unfolding w by simp
    from R [OF 1] have a1: "personCounts (fst w5) = personCounts (\<sigma> @ [c1])"
      and e1: "extends (\<sigma> @ [c1], t) w5"
      by simp_all
    from e1 have l: "length \<sigma> < length (fst w5)"
      by (auto dest: extends_length)
    from R [OF 2 l] have a2: "personCounts (fst w6) = personCounts (fst w5)"
      and e2': "extends w5 w6"
      by simp_all
    from e1 have e1': "extends w w5" unfolding w by (rule extends_store)
    have c6: "ctx < length (fst w6)"
      using that(2) e1' e2' by (blast intro: extends_less)
    have "personCounts (fst w6) = personCounts \<sigma>"
      unfolding a2 a1 personCounts_copy [OF c p1] ..
    then have k: "personCounts (fst w6) = personCounts (fst w)"
      unfolding w by simp
    from 3 show ?thesis
    proof
      assume "w' = w6"
      with k show ?thesis by simp
    next
      assume "LogicalOrStatement_random n ctx w6 = Some (Inr s, w')"
      from O [OF this c6] k show ?thesis by simp
    qed
  qed
  have I': "personCounts (fst w') = personCounts (fst w)"
    if "LogicalIfStatement_random (Suc n) ctx w = Some (Inr s, w')" "ctx < length (fst w)"
    for ctx w s w'
  proof -
    obtain \<sigma> t where w: "w = (\<sigma>, t)" by (cases w)
    from that(1) obtain c1 s1 w3 c2 s2 w6 where
      1: "randomStatement n (length \<sigma>) (Layer 1) (\<sigma> @ [c1], t) = Some (Inr s1, w3)"
      and p1: "personCount c1 = personCount (\<sigma> ! ctx)"
      and 2: "randomStatement n (length (fst w3)) (Layer 1) (fst w3 @ [c2], snd w3) = Some (Inr s2, w6)"
      and p2: "personCount c2 = personCount (fst w3 ! length \<sigma>)"
      and 3: "w' = w6 \<or> LogicalIfStatement_random n ctx w6 = Some (Inr s, w')"
      unfolding w
      by (auto simp: LogicalIfStatement_random.simps LogicalStatementContext_from_def
          new_LogicalStatementContext_def set_fresh Let_def split: if_splits
          elim!: andThen_SomeE)
    from that(2) have c: "ctx < length \<sigma>" unfolding w by simp
    from R [OF 1] have a1: "personCounts (fst w3) = personCounts (\<sigma> @ [c1])"
      and e1: "extends (\<sigma> @ [c1], t) w3"
      by simp_all
    from e1 have l: "length \<sigma> < length (fst w3)"
      by (auto dest: extends_length)
    from R [OF 2] have a2: "personCounts (fst w6) = personCounts (fst w3 @ [c2])"
      and e2: "extends (fst w3 @ [c2], snd w3) w6"
      by simp_all
    from e1 have e1': "extends w w3" unfolding w by (rule extends_store)
    from e2 have e2': "extends w3 w6" by (rule extends_store')
    have c6: "ctx < length (fst w6)"
      using that(2) e1' e2' by (blast intro: extends_less)
    have "personCounts (fst w6) = personCounts \<sigma>"
      unfolding a2 personCounts_copy [OF l p2] a1 personCounts_copy [OF c p1] ..
    then have k: "personCounts (fst w6) = personCounts (fst w)"
      unfolding w by simp
    from 3 show ?thesis
    proof
      assume "w' = w6"
      with k show ?thesis by simp
    next
      assume "LogicalIfStatement_random n ctx w6 = Some (Inr s, w')"
      from I [OF this c6] k show ?thesis by simp
    qed
  qed
  have CR: "personCounts (fst w2) = personCounts (fst w1) \<and> extends w1 w2"
    if "(case c of
           TrueFalse \<Rightarrow> TrueFalseStatement_random ctx w1
         | TypeCount \<Rightarrow> TypeCountStatement_random ctx w1
         | LogicalAnd \<Rightarrow> LogicalAndStatement_random n ctx w1
         | LogicalOr \<Rightarrow> LogicalOrStatement_random n ctx w1
         | LogicalIf \<Rightarrow> LogicalIfStatement_random n ctx w1) = Some (Inr s, w2)"
      "ctx < length (fst w1)"
    for c ctx w1 s w2
  proof (cases c)
    case TrueFalse
    with that TrueFalseStatement_random_Some [of ctx w1 "Inr s" w2]
      TrueFalseStatement_random_store [of ctx w1 "Inr s" w2] show ?thesis
      by auto
  next
    case TypeCount
    with that TypeCountStatement_random_Some [of ctx w1 "Inr s" w2]
      TypeCountStatement_random_store [of ctx w1 "Inr s" w2] show ?thesis
      by auto
  next
    case LogicalAnd
    with that show ?thesis by (auto dest: frame_And A)
  next
    case LogicalOr
    with that show ?thesis by (auto dest: frame_Or O)
  next
    case LogicalIf
    with that show ?thesis by (auto dest: frame_If I)
  qed
  have L': "personCounts (fst w') = personCounts (fst w)"
    if "randomStatement_loop (Suc n) cs ps ws ctx w = Some (Inr s, w')" "ctx < length (fst w)"
    for cs ps ws ctx w s w'
  proof -
    from that(1) obtain rnd w1 where m: "Math_random w = Some (Inr rnd, w1)"
      by (auto simp: randomStatement_loop.simps elim!: andThen_SomeE dest: Math_random_Some)
    then have s1: "fst w1 = fst w"
      by (auto dest: Math_random_Some)
    then have l1: "ctx < length (fst w1)"
      using that(2) by simp
    define c where "c = cs ! chooseIndex (rnd * ws) ps (length cs)"
    from that(1) m have "andThen
            (case c of
               TrueFalse \<Rightarrow> TrueFalseStatement_random ctx w1
             | TypeCount \<Rightarrow> TypeCountStatement_random ctx w1
             | LogicalAnd \<Rightarrow> LogicalAndStatement_random n ctx w1
             | LogicalOr \<Rightarrow> LogicalOrStatement_random n ctx w1
             | LogicalIf \<Rightarrow> LogicalIfStatement_random n ctx w1)
            (\<lambda>randomStatement w2.
               case subjectBitsArray randomStatement of
                 Inl e \<Rightarrow> Some (Inl e, w2)
               | Inr array \<Rightarrow>
                   if hasDuplicate array
                   then randomStatement_loop n cs ps ws ctx w2
                   else Some (Inr randomStatement, w2)) = Some (Inr s, w')"
      by (simp add: randomStatement_loop.simps Let_def c_def)
    then show ?thesis
    proof (cases rule: andThen_SomeE)
      case (thrown e)
      then show ?thesis by simp
    next
      case (returned s0 w2)
      from CR [OF returned(1) l1] have a: "personCounts (fst w2) = personCounts (fst w)"
        and e: "extends w1 w2"
        by (simp_all add: s1)
      from e l1 have l2: "ctx < length (fst w2)"
        by (rule extends_less)
      from returned(2) show ?thesis
        using a l2 by (auto split: sum.splits if_splits dest: L)
    qed
  qed
  from A' O' I' L' show ?case
    by blast
qed

lemma personCounts_loop:
  "randomStatement_loop n cs ps ws ctx w = Some (Inr s, w') \<Longrightarrow> ctx < length (fst w)
     \<Longrightarrow> personCounts (fst w') = personCounts (fst w)"
  using personCounts_all [of n] by blast

lemma personCounts_randomStatement:
  assumes "randomStatement n ctx ml w = Some (Inr s, w')" "ctx < length (fst w)"
  shows "personCounts (fst w') = personCounts (fst w)"
  using assms
  by (auto simp: randomStatement.simps Let_def split: if_splits dest: personCounts_loop)

lemma Array_keys_returns: "0 \<le> n \<Longrightarrow> n < 2 ^ 32 \<Longrightarrow> \<exists>keys. Array_keys n = Inr keys"
  by (simp add: Array_keys_def)

lemma sentence_returns:
  assumes "renderable s" "allocated \<sigma> s" "\<forall>n \<in> personCounts \<sigma>. 0 \<le> n \<and> n < 2 ^ 32"
  shows "\<exists>t. sentence \<sigma> s = Inr t"
  using assms(1,2)
proof (induction s)
  case (TypeCountStatement c sb lb)
  then have "personCount (\<sigma> ! c) \<in> personCounts \<sigma>"
    by (simp add: personCounts_def)
  with assms(3) have "0 \<le> personCount (\<sigma> ! c)" "personCount (\<sigma> ! c) < 2 ^ 32"
    by blast+
  then obtain keys where k: "Array_keys (personCount (\<sigma> ! c)) = Inr keys"
    using Array_keys_returns by blast
  have "0 \<le> popcount sb + 1" "popcount sb + 1 < 2 ^ 32"
    using popcount_range [of sb] by simp_all
  then obtain keys' where k': "Array_keys (popcount sb + 1) = Inr keys'"
    using Array_keys_returns by blast
  have "\<exists>t. subjectsPhrase (\<sigma> ! c) sb = Inr t"
    by (simp add: subjectsPhrase_def Let_def k)
  moreover have "\<exists>t. countPhrase (\<sigma> ! c) sb lb = Inr t"
    by (simp add: countPhrase_def Let_def k')
  ultimately show ?case
    by auto
qed auto

section \<open>Concrete runs\<close>

lemma and2_run: "LogicalAndStatement_random 3 0 world2 = Some (Inr and2, (and2_store, []))"
  by code_simp

lemma or2_run: "LogicalOrStatement_random 3 0 world2 = Some (Inr or2, (or2_store, []))"
  by code_simp

lemma or2_randomStatement:
  "randomStatement 3 0 Infinity (fst world2, 7 / 10 # snd world2) = Some (Inr or2, (or2_store, []))"
  by code_simp

text \<open>
  The product of a draw and the person count is rounded: for six speakers and the draw
  \<open>3752999689475413 / 2 ^ 52\<close> the exact product lies below \<open>5\<close>, the double is \<open>5\<close>.
\<close>

lemma rounded_product: "\<lfloor>double (3752999689475413 / 2 ^ 52 * 6)\<rfloor> = 5"
  by code_simp

text \<open>A run of the assembler's loop: one iteration, which replaces the second statement.\<close>

lemma puzzle5_state: "loop_state (fst world5) [0, 1] puzzle5"
  unfolding loop_state_def by code_simp

lemma puzzle5_not_accepted: "\<not> accepted 25 (Finite 40) puzzle5"
  by code_simp

lemma puzzle5_index: "nat \<lfloor>double (3 / 4 * 2)\<rfloor> = 1"
  by code_simp

lemma puzzle5_statement:
  "randomStatement 2 1 Infinity (stores5, [1 / 4, 7 / 8, 1 / 4])
     = Some (Inr (TypeCountStatement 1 3 2), (stores5, []))"
  by code_simp

lemma puzzle5_replaced:
  "replaced stores5 puzzle5 1 (TypeCountStatement 1 3 2) (sentences_var puzzle5' ! 1) = puzzle5'"
  by code_simp

lemma puzzle5_run:
  "generate_loop 3 2 25 (Finite 40) [0, 1] puzzle5 world5 = Some (Inr puzzle5', (stores5, []))"
  by code_simp

lemma puzzle5_sentence:
  "sentence stores5 (TypeCountStatement 1 3 2) = Inr (sentences_var puzzle5' ! 1)"
  by code_simp

lemma puzzle5_accepted: "accepted 25 (Finite 40) puzzle5'"
  by code_simp

section \<open>Count statements: bits of the mask and realised counts\<close>

lemma bit_set_below:
  fixes x :: int
  assumes "0 < x" "x < 2 ^ m"
  shows "\<exists>k < m. bit x k"
proof (rule ccontr)
  assume "\<not> (\<exists>k < m. bit x k)"
  then have "take_bit m x = 0"
    by (intro bit_eqI) (simp add: bit_take_bit_iff)
  moreover have "take_bit m x = x"
    using assms by (simp add: take_bit_int_eq_self)
  ultimately show False
    using assms by simp
qed

lemma bit_clear_below:
  fixes x :: int
  assumes "0 \<le> x" "x < 2 ^ m - 1"
  shows "\<exists>k < m. \<not> bit x k"
proof (rule ccontr)
  assume "\<not> (\<exists>k < m. \<not> bit x k)"
  then have "take_bit m x = mask m"
    by (intro bit_eqI) (auto simp: bit_take_bit_iff bit_mask_iff)
  moreover have "take_bit m x = x"
    using assms by (simp add: take_bit_int_eq_self)
  ultimately show False
    using assms by (simp add: mask_eq_exp_minus_1)
qed

lemma submask_count:
  fixes s :: int
  shows "0 \<le> s \<Longrightarrow> s < 2 ^ n \<Longrightarrow> 0 \<le> k \<Longrightarrow> k \<le> naive_count n s
    \<Longrightarrow> \<exists>t. 0 \<le> t \<and> t < 2 ^ n \<and> t AND s = t \<and> naive_count n t = k"
proof (induction n arbitrary: s k)
  case 0
  then show ?case by (intro exI [of _ 0]) simp
next
  case (Suc n)
  define s' where "s' = s div 2"
  define b where "b = s mod 2"
  have s: "s = b + 2 ^ 1 * s'" and b: "0 \<le> b" "b < 2 ^ 1" and s': "0 \<le> s'" "s' < 2 ^ n"
    using Suc.prems by (simp_all add: s'_def b_def)
  have c: "naive_count (Suc n) s = b + naive_count n s'"
    by (simp add: s'_def b_def)
  show ?case
  proof (cases "k \<le> naive_count n s'")
    case True
    from Suc.IH [OF s' Suc.prems(3) True] obtain t where t: "0 \<le> t" "t < 2 ^ n" "t AND s' = t"
      "naive_count n t = k"
      by blast
    have "(0 + 2 ^ 1 * t) AND (b + 2 ^ 1 * s') = (0 AND b) + 2 ^ 1 * (t AND s')"
      using b by (intro and_cat) simp_all
    with t have "2 * t AND s = 2 * t"
      by (simp add: s)
    with t show ?thesis
      by (intro exI [of _ "2 * t"]) simp
  next
    case False
    have "naive_count n s' \<le> int n" "0 \<le> naive_count n s'"
      using naive_count_bounds [of n s'] by simp_all
    with False Suc.prems(4) c b have b1: "b = 1" and k: "k - 1 = naive_count n s'"
      by simp_all
    have "0 \<le> k - 1" "k - 1 \<le> naive_count n s'"
      using k \<open>0 \<le> naive_count n s'\<close> by simp_all
    from Suc.IH [OF s' this] obtain t where t: "0 \<le> t" "t < 2 ^ n" "t AND s' = t"
      "naive_count n t = k - 1"
      by blast
    have "(1 + 2 ^ 1 * t) AND (b + 2 ^ 1 * s') = (1 AND b) + 2 ^ 1 * (t AND s')"
      using b by (intro and_cat) simp_all
    with t b1 have "(1 + 2 * t) AND s = 1 + 2 * t"
      by (simp add: s)
    moreover have "(1 + 2 * t) mod 2 = 1" "(1 + 2 * t) div 2 = t"
      by simp_all
    ultimately show ?thesis
      using t by (intro exI [of _ "1 + 2 * t"]) simp
  qed
qed


lemma toInt32_id: "- (2 ^ 31) \<le> x \<Longrightarrow> x < 2 ^ 31 \<Longrightarrow> toInt32 x = x"
  by (simp only: toInt32_stb signed_take_bit_int_eq_self)

lemma popcount_small:
  assumes "0 \<le> x" "x < 2 ^ n" "n \<le> 32"
  shows "popcount x = naive_count n x"
proof -
  have "x < 2 ^ 32"
    using assms(2) power_increasing [OF assms(3), of "2 :: int"] by simp
  then have "toUint32 x = x"
    using assms(1) by (simp add: toUint32_def)
  moreover have "naive_count (n + (32 - n)) x = naive_count n x"
    using assms(1,2) by (rule naive_count_small)
  ultimately show ?thesis
    using assms(3) by (simp add: popcount_total naive_popcount_def)
qed

lemma realized_count:
  assumes "0 \<le> sb" "sb < 2 ^ n" "n \<le> 30" "0 \<le> k" "k \<le> popcount sb"
  shows "\<exists>a. 0 \<le> a \<and> a < 2 ^ n \<and> popcount (js_and sb (js_not a)) = k"
proof -
  have p: "popcount sb = naive_count n sb"
    using assms by (intro popcount_small) simp_all
  from submask_count [OF assms(1,2,4)] assms(5) p obtain t where t: "0 \<le> t" "t < 2 ^ n"
    "t AND sb = t" "naive_count n t = k"
    by auto
  define a where "a = sb AND NOT t"
  have a: "0 \<le> a" "a \<le> sb"
    using assms(1) by (simp_all add: a_def AND_upper1)
  have "(2 :: int) ^ n \<le> 2 ^ 30"
    using assms(3) by (intro power_increasing) simp_all
  then have r: "sb < 1073741824" "a < 1073741824"
    using assms(2) a by simp_all
  have "toInt32 sb = sb" "toInt32 a = a"
    using assms(1) a r by (simp_all add: toInt32_id)
  moreover have "toInt32 (NOT a) = NOT a"
    using a r by (intro toInt32_id) (simp_all add: not_int_def)
  moreover have "sb AND NOT a = t"
  proof (rule bit_eqI)
    fix i
    have "bit t i \<longleftrightarrow> bit t i \<and> bit sb i"
      using t(3) by (metis bit_and_iff)
    then show "bit (sb AND NOT a) i = bit t i"
      by (auto simp: a_def bit_and_iff bit_not_iff bit_or_iff)
  qed
  ultimately have "js_and sb (js_not a) = t"
    by (simp add: js_and_def js_not_def)
  moreover have "popcount t = naive_count n t"
    using t assms(3) by (intro popcount_small) simp_all
  ultimately show ?thesis
    using a assms(2) t(4) by (intro exI [of _ a]) simp
qed

lemma TypeCountStatement_random_result:
  assumes "TypeCountStatement_random context w = Some (Inr s, w')"
  shows "\<exists>used r r'. snd w = used @ r # r' # snd w' \<and> fst w' = fst w
     \<and> \<not> popcount \<lfloor>r * of_int (js_shl 1 (personCount (fst w ! context)))\<rfloor> \<le> 1
     \<and> s = TypeCountStatement context \<lfloor>r * of_int (js_shl 1 (personCount (fst w ! context)))\<rfloor>
          (\<lfloor>r' * of_int (js_shl 1 (popcount \<lfloor>r * of_int (js_shl 1 (personCount (fst w ! context)))\<rfloor> + 1) - 2)\<rfloor> + 1)"
proof -
  from assms obtain sb rest where d: "drawSubjectBits (personCount (fst w ! context)) (snd w) = Some (sb, rest)"
    and a: "andThen (Math_random (fst w, rest)) (\<lambda>r w1.
               let liarCountBits = \<lfloor>r * of_int (js_shl 1 (popcount sb + 1) - 2)\<rfloor> + 1
               in Some (Inr (TypeCountStatement context sb liarCountBits), w1)) = Some (Inr s, w')"
    by (auto simp: TypeCountStatement_random_def Let_def split: option.splits)
  from drawSubjectBits_Some [OF d] obtain used r where u: "snd w = used @ r # rest"
    "sb = \<lfloor>r * of_int (js_shl 1 (personCount (fst w ! context)))\<rfloor>" "\<not> popcount sb \<le> 1"
    by blast
  from a u show ?thesis
    by (auto elim!: andThen_SomeE dest!: Math_random_Some simp: Let_def)
qed

lemma floor_draw:
  fixes r :: real and M :: int
  assumes "0 \<le> r" "r < 1" "0 < M"
  shows "0 \<le> \<lfloor>r * of_int M\<rfloor>" "\<lfloor>r * of_int M\<rfloor> < M"
proof -
  show "0 \<le> \<lfloor>r * of_int M\<rfloor>"
    using assms by simp
  have "r * of_int M < 1 * of_int M"
    using assms by (intro mult_strict_right_mono) simp_all
  then show "\<lfloor>r * of_int M\<rfloor> < M"
    by (simp add: floor_less_iff)
qed

section \<open>The target length band\<close>

lemma interp_mono:
  assumes "2 \<le> N" "t \<le> t'"
  shows "interpolatedSentenceLength N t \<le> interpolatedSentenceLength N t'"
proof -
  have p: "(2::real) powr (2 * t) \<le> 2 powr (2 * t')"
    using assms(2) by (intro powr_mono) simp_all
  have c: "(0::real) \<le> 100 * (of_int N - 1) - 11 * of_int N"
    using assms(1) by simp
  have "(2 powr (2 * t) - 1) / 3 * (100 * (of_int N - 1) - 11 * of_int N)
        \<le> (2 powr (2 * t') - 1) / 3 * (100 * (of_int N - 1) - 11 * of_int N)"
    using p c by (intro mult_right_mono) simp_all
  then show ?thesis
    by (simp add: interpolatedSentenceLength_def Let_def)
qed

lemma interp_lower:
  assumes "2 \<le> N" "0 \<le> t"
  shows "11 * of_int N \<le> interpolatedSentenceLength N t"
proof -
  have "interpolatedSentenceLength N 0 \<le> interpolatedSentenceLength N t"
    using assms by (rule interp_mono)
  then show ?thesis
    by (simp add: interpolatedSentenceLength_def Let_def)
qed

lemma interp_upper:
  assumes "2 \<le> N" "t \<le> 1"
  shows "interpolatedSentenceLength N t \<le> 100 * (of_int N - 1)"
proof -
  have "interpolatedSentenceLength N t \<le> interpolatedSentenceLength N 1"
    using assms by (rule interp_mono)
  then show ?thesis
    by (simp add: interpolatedSentenceLength_def Let_def)
qed

section \<open>The loop of the assembler\<close>

lemma regenerate_Inr:
  assumes "regenerate m count ctxs p w = Some (Inr p1, w1)"
  shows "\<exists>r tape i statement text.
           snd w = r # tape \<and> int i = \<lfloor>double (r * of_int count)\<rfloor> \<and> i < length ctxs
         \<and> randomStatement m (ctxs ! i) Infinity (fst w, tape) = Some (Inr statement, w1)
         \<and> sentence (fst w1) statement = Inr text
         \<and> p1 = replaced (fst w1) p i statement text"
proof -
  from assms obtain r wr where m: "Math_random w = Some (Inr r, wr)"
    and rest: "(let randomSpeakerIndex = \<lfloor>double (r * of_int count)\<rfloor>
       in if 0 \<le> randomSpeakerIndex \<and> randomSpeakerIndex < int (length ctxs)
          then andThen (randomStatement m (ctxs ! nat randomSpeakerIndex) Infinity wr)
                 (\<lambda>statement w2.
                    case sentence (fst w2) statement of
                      Inl e \<Rightarrow> Some (Inl e, w2)
                    | Inr text \<Rightarrow>
                        let statements = (statements_var p)[nat randomSpeakerIndex := statement];
                            sentences = (sentences_var p)[nat randomSpeakerIndex := text]
                        in Some (Inr \<lparr>statements_var = statements, sentences_var = sentences,
                                      solutions_var = solutionsTo (fst w2) statements\<rparr>, w2))
          else Some (Inl TypeError, wr)) = Some (Inr p1, w1)"
    unfolding regenerate_def by (auto elim!: andThen_SomeE dest: Math_random_Some)
  from Math_random_Some [OF m] have t: "snd w = r # snd wr" "fst wr = fst w"
    by simp_all
  then have wr: "wr = (fst w, snd wr)"
    by (metis prod.collapse)
  define i where "i = nat \<lfloor>double (r * of_int count)\<rfloor>"
  from rest have range: "0 \<le> \<lfloor>double (r * of_int count)\<rfloor>" "\<lfloor>double (r * of_int count)\<rfloor> < int (length ctxs)"
    by (auto simp: Let_def split: if_splits)
  then have i: "int i = \<lfloor>double (r * of_int count)\<rfloor>" "i < length ctxs"
    unfolding i_def by linarith+
  from rest range obtain statement where
    s: "randomStatement m (ctxs ! i) Infinity wr = Some (Inr statement, w1)"
    and p: "(case sentence (fst w1) statement of
                      Inl e \<Rightarrow> Some (Inl e, w1)
                    | Inr text \<Rightarrow>
                        Some (Inr (replaced (fst w1) p i statement text), w1)) = Some (Inr p1, w1)"
    by (auto simp: Let_def i_def replaced_def elim!: andThen_SomeE split: sum.splits)
  from p obtain t1 where "sentence (fst w1) statement = Inr t1"
    "p1 = replaced (fst w1) p i statement t1"
    by (auto split: sum.splits)
  with t i s wr show ?thesis
    by metis
qed

lemma list_all_update: "list_all P xs \<Longrightarrow> P v \<Longrightarrow> list_all P (xs[i := v])"
  by (induction xs arbitrary: i) (auto split: nat.splits)

lemma counts_iff:
  "list_all (\<lambda>c. 0 \<le> personCount c \<and> personCount c < 2 ^ 32) \<sigma>
     = (\<forall>n \<in> personCounts \<sigma>. 0 \<le> n \<and> n < 2 ^ 32)"
  by (auto simp: list_all_iff personCounts_def)

lemma loop_state_step:
  assumes st: "loop_state (fst w) ctxs p"
    and i: "i < length ctxs"
    and r: "randomStatement m (ctxs ! i) Infinity (fst w, tape) = Some (Inr statement, w1)"
    and t: "sentence (fst w1) statement = Inr text"
  shows "loop_state (fst w1) ctxs (replaced (fst w1) p i statement text)"
proof -
  from frame_randomStatement [OF r] obtain fresh where f: "fst w1 = fst w @ fresh"
    by (auto simp: extends_def)
  from st have len: "length (statements_var p) = length ctxs"
    and cs: "list_all (\<lambda>c. c < length (fst w)) ctxs"
    and pc: "list_all (\<lambda>c. 0 \<le> personCount c \<and> personCount c < 2 ^ 32) (fst w)"
    and al: "list_all (allocated (fst w)) (statements_var p)"
    and se: "map (sentence (fst w)) (statements_var p) = map Inr (sentences_var p)"
    by (simp_all add: loop_state_def)
  from cs i have c: "ctxs ! i < length (fst (fst w, tape))"
    by (simp add: list_all_length)
  from allocated_randomStatement [OF r c] have a: "allocated (fst w1) statement" .
  from personCounts_randomStatement [OF r c] have "personCounts (fst w1) = personCounts (fst w)"
    by simp
  with pc have pc': "list_all (\<lambda>c. 0 \<le> personCount c \<and> personCount c < 2 ^ 32) (fst w1)"
    by (simp only: counts_iff)
  have cs': "list_all (\<lambda>c. c < length (fst w1)) ctxs"
    using cs by (auto simp: f list_all_iff)
  have al': "list_all (allocated (fst w1)) (statements_var p)"
    using al by (auto simp: f list_all_iff allocated_append)
  have "map (sentence (fst w1)) (statements_var p) = map (sentence (fst w)) (statements_var p)"
    using al by (auto simp: f list_all_iff sentence_append)
  with se have se': "map (sentence (fst w1)) (statements_var p) = map Inr (sentences_var p)"
    by simp
  have "map (sentence (fst w1)) ((statements_var p)[i := statement])
        = map Inr ((sentences_var p)[i := text])"
    by (simp add: map_update se' t)
  with len cs' pc' al' a show ?thesis
    by (simp add: loop_state_def replaced_def list_all_update)
qed

lemma generate_loop_break:
  "accepted lo hi p \<Longrightarrow> generate_loop n count lo hi ctxs p w = Some (Inr p, w)"
  by (subst generate_loop.simps) simp

lemma generate_loop_iteration:
  assumes "generate_loop n count lo hi ctxs p w = Some (Inr p', w')" "\<not> accepted lo hi p"
  shows "\<exists>m p1 w1. n = Suc m \<and> regenerate m count ctxs p w = Some (Inr p1, w1)
            \<and> generate_loop m count lo hi ctxs p1 w1 = Some (Inr p', w')"
proof (cases n)
  case 0
  with assms show ?thesis
    by (subst (asm) generate_loop.simps) simp
next
  case (Suc m)
  from assms have "andThen (regenerate m count ctxs p w)
      (\<lambda>p' w'. generate_loop m count lo hi ctxs p' w') = Some (Inr p', w')"
    unfolding Suc by (subst (asm) generate_loop.simps) simp
  then show ?thesis
    unfolding Suc by (auto elim!: andThen_SomeE)
qed

lemma generate_loop_accepted:
  "generate_loop n count lo hi ctxs p w = Some (Inr p', w') \<Longrightarrow> accepted lo hi p'"
proof (induction n arbitrary: p w)
  case 0
  then show ?case
    by (cases "accepted lo hi p") (auto simp: generate_loop_break dest: generate_loop_iteration)
next
  case (Suc n)
  show ?case
  proof (cases "accepted lo hi p")
    case True
    with Suc.prems show ?thesis
      by (simp add: generate_loop_break)
  next
    case False
    from generate_loop_iteration [OF Suc.prems False] obtain p1 w1
      where "generate_loop n count lo hi ctxs p1 w1 = Some (Inr p', w')"
      by auto
    then show ?thesis
      by (rule Suc.IH)
  qed
qed

lemma generate_loop_state:
  "generate_loop n count lo hi ctxs p w = Some (Inr p', w') \<Longrightarrow> loop_state (fst w) ctxs p
     \<Longrightarrow> loop_state (fst w') ctxs p'"
proof (induction n arbitrary: p w)
  case 0
  then show ?case
    by (cases "accepted lo hi p") (auto simp: generate_loop_break dest: generate_loop_iteration)
next
  case (Suc n)
  show ?case
  proof (cases "accepted lo hi p")
    case True
    with Suc.prems show ?thesis
      by (simp add: generate_loop_break)
  next
    case False
    from generate_loop_iteration [OF Suc.prems(1) False] obtain p1 w1
      where 1: "regenerate n count ctxs p w = Some (Inr p1, w1)"
        and 2: "generate_loop n count lo hi ctxs p1 w1 = Some (Inr p', w')"
      by auto
    from regenerate_Inr [OF 1] Suc.prems(2) have "loop_state (fst w1) ctxs p1"
      by (auto intro: loop_state_step)
    with 2 show ?thesis
      by (rule Suc.IH)
  qed
qed

lemma regenerate_unfold:
  assumes "snd w = r # tape" and "i = nat \<lfloor>double (r * of_int count)\<rfloor>"
    and "0 \<le> \<lfloor>double (r * of_int count)\<rfloor>"
    and "\<lfloor>double (r * of_int count)\<rfloor> < int (length ctxs)"
  shows "regenerate m count ctxs p w
       = andThen (randomStatement m (ctxs ! i) Infinity (fst w, tape))
           (\<lambda>statement w2.
              case sentence (fst w2) statement of
                Inl e \<Rightarrow> Some (Inl e, w2)
              | Inr text \<Rightarrow> Some (Inr (replaced (fst w2) p i statement text), w2))"
  using assms
  by (simp add: regenerate_def Math_random_def Let_def replaced_def cong: sum.case_cong)

lemma randomStatement_returns_statement:
  assumes "randomStatement m ctx Infinity w = Some (res, w1)"
  shows "\<exists>statement. res = Inr statement \<and> renderable statement"
proof -
  have "filter (\<lambda>c. layer_le (nestingLayer c) Infinity) childStatementClasses \<noteq> []"
    by (simp add: childStatementClasses_def)
  from randomStatement_choice [OF assms this] show ?thesis
    by (auto simp: produced_def)
qed

lemma sumOfSentenceLengths_foldl:
  "foldl (\<lambda>sum text. sum + int (length text)) a texts = a + int (sum_list (map length texts))"
  by (induction texts arbitrary: a) simp_all

lemma sumOfSentenceLengths_sum:
  "sumOfSentenceLengths texts = int (sum_list (map length texts))"
  by (simp add: sumOfSentenceLengths_def sumOfSentenceLengths_foldl)

text \<open>The code of the handler before the loop establishes the state of the loop head.\<close>

lemma newContexts_alloc:
  "newContexts count factor k j \<sigma> = (rs, \<sigma>') \<Longrightarrow>
     (\<exists>fresh. \<sigma>' = \<sigma> @ fresh) \<and> list_all (\<lambda>c. c < length \<sigma>') rs \<and> length rs = j
     \<and> personCounts \<sigma>' \<subseteq> insert count (personCounts \<sigma>)"
proof (induction j arbitrary: k \<sigma> rs \<sigma>')
  case 0
  then show ?case by auto
next
  case (Suc j)
  let ?c = "\<lparr>personCount = count, speakerIndex = int k, isRoot = True, shouldUseGa = False,
             preconditionPredicate = None, complexityFactor = factor\<rparr>"
  obtain rs1 \<sigma>2 where n: "newContexts count factor (Suc k) j (\<sigma> @ [?c]) = (rs1, \<sigma>2)"
    by (cases "newContexts count factor (Suc k) j (\<sigma> @ [?c])")
  with Suc.prems have r: "rs = length \<sigma> # rs1" "\<sigma>' = \<sigma>2"
    by (simp_all add: new_LogicalStatementContext_def)
  from Suc.IH [OF n] obtain fresh where f: "\<sigma>2 = (\<sigma> @ [?c]) @ fresh"
    and a: "list_all (\<lambda>c. c < length \<sigma>2) rs1" and l: "length rs1 = j"
    and p: "personCounts \<sigma>2 \<subseteq> insert count (personCounts (\<sigma> @ [?c]))"
    by blast
  from p have "personCounts \<sigma>2 \<subseteq> insert count (personCounts \<sigma>)"
    by (auto simp: personCounts_def)
  with f a l show ?case
    unfolding r by auto
qed

lemma firstStatements_state:
  "firstStatements n cs w = Some (Inr (ss, ts), w1) \<Longrightarrow> list_all (\<lambda>c. c < length (fst w)) cs \<Longrightarrow>
     extends w w1 \<and> length ss = length cs \<and> list_all (allocated (fst w1)) ss
     \<and> map (sentence (fst w1)) ss = map Inr ts
     \<and> personCounts (fst w1) = personCounts (fst w)"
proof (induction cs arbitrary: w ss ts)
  case Nil
  then show ?case by (auto simp: extends_refl)
next
  case (Cons c cs)
  from Cons.prems(1) obtain s wa where r: "randomStatement n c Infinity w = Some (Inr s, wa)"
    and 1: "(case sentence (fst wa) s of
         Inl e \<Rightarrow> Some (Inl e, wa)
       | Inr text \<Rightarrow>
           andThen (firstStatements n cs wa) (\<lambda>(ss, ts) w2. Some (Inr (s # ss, text # ts), w2)))
        = Some (Inr (ss, ts), w1)"
    by (auto elim!: andThen_SomeE)
  from 1 obtain t1 where t: "sentence (fst wa) s = Inr t1"
    and 2: "andThen (firstStatements n cs wa) (\<lambda>(ss, ts) w2. Some (Inr (s # ss, t1 # ts), w2))
        = Some (Inr (ss, ts), w1)"
    by (auto split: sum.splits)
  from 2 obtain ss' ts' where f: "firstStatements n cs wa = Some (Inr (ss', ts'), w1)"
    and e: "ss = s # ss'" "ts = t1 # ts'"
    by (auto elim!: andThen_SomeE)
  from frame_randomStatement [OF r] have x: "extends w wa" .
  from Cons.prems(2) have c: "c < length (fst w)" and cs: "list_all (\<lambda>c. c < length (fst w)) cs"
    by simp_all
  from cs x have "list_all (\<lambda>c. c < length (fst wa)) cs"
    by (auto simp: list_all_iff dest: extends_less)
  from Cons.IH [OF f this] have y: "extends wa w1" and l: "length ss' = length cs"
    and a: "list_all (allocated (fst w1)) ss'" and m: "map (sentence (fst w1)) ss' = map Inr ts'"
    and pc: "personCounts (fst w1) = personCounts (fst wa)"
    by simp_all
  from personCounts_randomStatement [OF r c] have pa: "personCounts (fst wa) = personCounts (fst w)" .
  from allocated_randomStatement [OF r c] have sa: "allocated (fst wa) s" .
  from y obtain fresh where fr: "fst w1 = fst wa @ fresh"
    by (auto simp: extends_def)
  have "sentence (fst w1) s = Inr t1"
    using sa t by (simp add: fr sentence_append)
  moreover have "allocated (fst w1) s"
    using sa by (simp add: fr allocated_append)
  ultimately show ?case
    using x y l a m e pc pa by (auto intro: extends_trans)
qed

lemma generatePuzzle_loop:
  assumes "generatePuzzle n count sentenceComplexity w = Some (Inr p', w')"
    and "0 \<le> count" "count < 2 ^ 32"
    and "list_all (\<lambda>c. 0 \<le> personCount c \<and> personCount c < 2 ^ 32) (fst w)"
  shows "\<exists>statementContexts p w1.
           int (length statementContexts) = count
         \<and> loop_state (fst w1) statementContexts p
         \<and> generate_loop n count (minSentenceLength count sentenceComplexity)
              (maxSentenceLength count sentenceComplexity) statementContexts p w1
            = Some (Inr p', w')"
proof -
  define factor :: real where "factor = 10 powr ((of_int sentenceComplexity - 1) / 2 - 1)"
  obtain cs \<sigma>1 where nc: "newContexts count factor 0 (nat count) (fst w) = (cs, \<sigma>1)"
    by (cases "newContexts count factor 0 (nat count) (fst w)")
  from newContexts_alloc [OF nc] have a: "list_all (\<lambda>c. c < length \<sigma>1) cs"
    and l: "length cs = nat count"
    and p: "personCounts \<sigma>1 \<subseteq> insert count (personCounts (fst w))"
    by simp_all
  from assms nc obtain ss ts w1 where f: "firstStatements n cs (\<sigma>1, snd w) = Some (Inr (ss, ts), w1)"
    and g: "generate_loop n count (minSentenceLength count sentenceComplexity)
              (maxSentenceLength count sentenceComplexity) cs
              \<lparr>statements_var = ss, sentences_var = ts, solutions_var = solutionsTo (fst w1) ss\<rparr> w1
            = Some (Inr p', w')"
    by (auto simp: generatePuzzle_def Let_def factor_def elim!: andThen_SomeE)
  from firstStatements_state [OF f] a
  have x: "extends (\<sigma>1, snd w) w1" and "length ss = length cs"
    "list_all (allocated (fst w1)) ss" "map (sentence (fst w1)) ss = map Inr ts"
    and q: "personCounts (fst w1) = personCounts \<sigma>1"
    by simp_all
  moreover have "list_all (\<lambda>c. c < length (fst w1)) cs"
    using a extends_less [OF x] by (auto simp: list_all_iff)
  moreover have "list_all (\<lambda>c. 0 \<le> personCount c \<and> personCount c < 2 ^ 32) (fst w1)"
  proof -
    from assms(4) have "\<forall>n \<in> personCounts (fst w). 0 \<le> n \<and> n < 2 ^ 32"
      by (simp only: counts_iff)
    with p assms(2,3) have "\<forall>n \<in> personCounts \<sigma>1. 0 \<le> n \<and> n < 2 ^ 32"
      by blast
    then show ?thesis
      by (simp only: counts_iff q)
  qed
  ultimately have "loop_state (fst w1) cs
          \<lparr>statements_var = ss, sentences_var = ts, solutions_var = solutionsTo (fst w1) ss\<rparr>"
    by (simp add: loop_state_def)
  with g l assms(2) show ?thesis
    by (intro exI [of _ cs] exI conjI) auto
qed

text \<open>
  Claim C4. For every 32-bit unsigned integer \<open>x\<close>, that is every \<open>x\<close> with \<open>0 \<le> x < 2 ^ 32\<close>,
  \<open>popcount x\<close> is the number of 1 bits of \<open>x\<close> as counted by looking at the 32 bits one
  after the other.
\<close>

theorem popcount_correct:
  assumes "0 \<le> x" "x < 2 ^ 32"
  shows "popcount x = naive_popcount x"
  using assms by (simp only: popcount_arith popcount_arith_naive naive_popcount_def)

theorem popcount_correct_witness:
  "(0 :: int) \<le> 0xDEADBEEF \<and> (0xDEADBEEF :: int) < 2 ^ 32
   \<and> popcount 0xDEADBEEF = naive_popcount 0xDEADBEEF"
  using popcount_correct [of "0xDEADBEEF"] by simp

section \<open>Evaluation of a count statement\<close>

text \<open>
  Claim C2, as amended. For every TypeCountStatement with subject set \<open>subjectBits\<close> and mask
  \<open>liarCountBits\<close> and every assignment \<open>a\<close>, \<open>isTrueOn a\<close> is true if and only if the bit
  of \<open>liarCountBits\<close> at position \<open>popcount (subjectBits & ~a) mod 32\<close> is set, where popcount
  counts the set bits of the 32-bit truncation; the position is \<open>popcount (subjectBits & ~a)\<close>
  itself whenever that count is below 32. (The shift \<open>>>\<close> uses its count modulo 32, so with
  all 32 bits counted the bit tested is bit 0, not bit 32.)
\<close>

theorem TypeCountStatement_isTrueOn:
  "isTrueOn (TypeCountStatement c subjectBits liarCountBits) a
     = bit liarCountBits (nat (popcount (js_and subjectBits (js_not a)) mod 32))
   \<and> popcount (js_and subjectBits (js_not a))
     = naive_popcount (toUint32 (js_and subjectBits (js_not a)))
   \<and> (popcount (js_and subjectBits (js_not a)) < 32 \<longrightarrow>
        isTrueOn (TypeCountStatement c subjectBits liarCountBits) a
          = bit liarCountBits (nat (popcount (js_and subjectBits (js_not a)))))"
proof -
  have "isTrueOn (TypeCountStatement c subjectBits liarCountBits) a
     = bit liarCountBits (nat (popcount (js_and subjectBits (js_not a)) mod 32))"
    by (simp add: bit_test shiftCount_def)
  moreover have "popcount x < 32 \<Longrightarrow> popcount x mod 32 = popcount x" for x
    using popcount_range [of x] by simp
  ultimately show ?thesis
    using popcount_total by simp
qed

text \<open>The theorem at subjects \<open>{0, 1, 2}\<close>, mask "exactly one liar", assignment \<open>5\<close>.\<close>

theorem TypeCountStatement_isTrueOn_witness:
  "popcount (js_and 7 (js_not 5)) < 32
   \<and> isTrueOn (TypeCountStatement 0 7 2) 5 = bit (2 :: int) (nat (popcount (js_and 7 (js_not 5))))"
proof -
  have "popcount (js_and 7 (js_not 5)) < 32"
    by code_simp
  with TypeCountStatement_isTrueOn [of 0 7 2 5] show ?thesis
    by blast
qed

text \<open>
  The claim as stated fails when all 32 bits are counted: with every bit a subject and the
  assignment \<open>0\<close> the count is 32, and the statement with mask \<open>1\<close> is true although bit 32
  of the mask is not set.
\<close>

theorem TypeCountStatement_isTrueOn_counterexample:
  "\<not> (isTrueOn (TypeCountStatement 0 (- 1) 1) 0
        = bit (1 :: int) (nat (popcount (js_and (- 1) (js_not 0)))))"
  by code_simp

section \<open>The solver\<close>

text \<open>
  Claim C3, as amended. For every list of \<open>N \<le> 30\<close> statements, \<open>solutionsTo\<close> returns, in
  increasing order and without repetition, exactly those assignments \<open>a\<close> in \<open>[0, 2 ^ N)\<close> for
  which every statement is consistent with its speaker: \<open>isTrueOn a\<close> equals the bit of \<open>a\<close> at
  position \<open>speakerIndex mod 32\<close>, which is position \<open>speakerIndex\<close> whenever
  \<open>0 \<le> speakerIndex < 32\<close> (as in every puzzle, where the speaker index is the position of the
  statement). No consistent assignment is omitted and no inconsistent one is included.
\<close>

theorem solutionsTo_correct:
  assumes "length statements \<le> 30"
  shows "solutionsTo \<sigma> statements
         = filter (\<lambda>a. \<forall>s \<in> set statements.
               isTrueOn s a = bit a (nat (speakerIndex (\<sigma> ! context_of s) mod 32)))
             [0..2 ^ length statements - 1]
       \<and> ((\<forall>s \<in> set statements. 0 \<le> speakerIndex (\<sigma> ! context_of s)
                \<and> speakerIndex (\<sigma> ! context_of s) < 32) \<longrightarrow>
          solutionsTo \<sigma> statements
          = filter (\<lambda>a. \<forall>s \<in> set statements. consistent_with_speaker \<sigma> s a)
              [0..2 ^ length statements - 1])"
proof -
  have b: "js_shl 1 (int (length statements)) = 2 ^ length statements"
    using assms js_shl_1 [of "int (length statements)"] by simp
  have 1: "solutionsTo \<sigma> statements
         = filter (\<lambda>a. \<forall>s \<in> set statements.
               isTrueOn s a = bit a (nat (speakerIndex (\<sigma> ! context_of s) mod 32)))
             [0..2 ^ length statements - 1]"
    unfolding solutionsTo_def Let_def b solutionsTo_loop_filter
    by (rule filter_cong) (simp_all add: allConsistent_iff isConsistentOn_bit shiftCount_def)
  have "(\<lambda>a. \<forall>s \<in> set statements.
               isTrueOn s a = bit a (nat (speakerIndex (\<sigma> ! context_of s) mod 32)))
        = (\<lambda>a. \<forall>s \<in> set statements. consistent_with_speaker \<sigma> s a)"
    if "\<forall>s \<in> set statements. 0 \<le> speakerIndex (\<sigma> ! context_of s)
                \<and> speakerIndex (\<sigma> ! context_of s) < 32"
    using that by (simp add: consistent_with_speaker_def)
  with 1 show ?thesis
    by simp
qed

text \<open>The theorem at the two-speaker puzzle: the assignments \<open>0\<close> and \<open>3\<close> are its solutions.\<close>

theorem solutionsTo_correct_witness:
  "length puzzle2 \<le> 30 \<and> solutionsTo store2 puzzle2 = [0, 3]"
proof -
  have l: "length puzzle2 \<le> 30"
    by (simp add: puzzle2_def)
  have u: "[0..(3 :: int)] = [0, 1, 2, 3]"
    by (simp add: upto_rec1)
  from solutionsTo_correct [OF l, of store2] show ?thesis
    by (simp add: l u puzzle2_def store2_def speaker_def bit_test shiftCount_def)
qed

text \<open>
  The claim as stated fails for 31 statements: \<open>1 << 31\<close> is negative, the loop over the
  assignments does not run, and the result is empty although the assignment \<open>0\<close> (and every
  other) is consistent with all 31 speakers.
\<close>

theorem solutionsTo_correct_counterexample:
  "solutionsTo store31 puzzle31 = []
   \<and> \<not> (set (solutionsTo store31 puzzle31)
          = {a. 0 \<le> a \<and> a < 2 ^ length puzzle31
                \<and> (\<forall>s \<in> set puzzle31. consistent_with_speaker store31 s a)})"
proof -
  have l: "int (length puzzle31) = 31"
    by (simp add: puzzle31_def)
  have s: "js_shl 1 31 = - 2147483648"
    by (simp add: js_shl_def toInt32_def shiftCount_def)
  have e: "solutionsTo store31 puzzle31 = []"
    unfolding solutionsTo_def Let_def l s by (subst solutionsTo_loop.simps) simp
  have "consistent_with_speaker store31 s 0" if "s \<in> set puzzle31" for s
    using that by (auto simp: puzzle31_def consistent_with_speaker_def bit_test)
  then have m: "0 \<in> {a. 0 \<le> a \<and> a < 2 ^ length puzzle31
                \<and> (\<forall>s \<in> set puzzle31. consistent_with_speaker store31 s a)}"
    by simp
  have "0 \<notin> set (solutionsTo store31 puzzle31)"
    by (simp add: e)
  with m e show ?thesis
    by blast
qed

section \<open>Compound statements are not redundant\<close>

text \<open>
  Claim C1, as amended. For every statement returned by \<open>LogicalAndStatement.random\<close>, neither
  of its two substatements implies the whole compound. For every statement returned by
  \<open>LogicalOrStatement.random\<close> the direction is the other one: the compound implies neither of
  its two substatements, whereas each substatement does imply the compound (a disjunct
  always implies its disjunction). Both hold for every sequence of draws on which the
  rejection loop returns.
\<close>

theorem compound_not_redundant:
  "(LogicalAndStatement_random n context w = Some (Inr s, w') \<longrightarrow>
      (\<exists>s1 s2. s = LogicalAndStatement context s1 s2
         \<and> \<not> implies_stmt (fst w') s1 s \<and> \<not> implies_stmt (fst w') s2 s))
   \<and> (LogicalOrStatement_random n context w = Some (Inr s, w') \<longrightarrow>
      (\<exists>s1 s2. s = LogicalOrStatement context s1 s2
         \<and> \<not> implies_stmt (fst w') s s1 \<and> \<not> implies_stmt (fst w') s s2
         \<and> implies_stmt (fst w') s1 s \<and> implies_stmt (fst w') s2 s))"
  using And_checks [of n "context" w s w'] Or_checks [of n "context" w s w']
    implies_Or_left implies_Or_right
  by blast

text \<open>
  The theorem on the two runs from \<open>world2\<close>: the conjunction and the disjunction of "A is a
  truth-teller" and "B is a truth-teller".
\<close>

theorem compound_not_redundant_witness:
  "LogicalAndStatement_random 3 0 world2 = Some (Inr and2, (and2_store, []))
   \<and> \<not> implies_stmt and2_store (TrueFalseStatement 1 0 True) and2
   \<and> \<not> implies_stmt and2_store (TrueFalseStatement 2 1 True) and2
   \<and> LogicalOrStatement_random 3 0 world2 = Some (Inr or2, (or2_store, []))
   \<and> \<not> implies_stmt or2_store or2 (TrueFalseStatement 1 0 True)
   \<and> \<not> implies_stmt or2_store or2 (TrueFalseStatement 1 1 True)"
  using compound_not_redundant [of 3 0 world2 and2 "(and2_store, [])"]
    compound_not_redundant [of 3 0 world2 or2 "(or2_store, [])"] and2_run or2_run
  by (simp add: and2_def or2_def)

text \<open>
  The claim as stated fails for the disjunction: on the statement that
  \<open>LogicalOrStatement.random\<close> returns from \<open>world2\<close>, \<open>substatement1.implies(compound)\<close> and
  \<open>substatement2.implies(compound)\<close> are both true.
\<close>

theorem compound_not_redundant_counterexample:
  "LogicalOrStatement_random 3 0 world2 = Some (Inr or2, (or2_store, []))
   \<and> implies_stmt or2_store (TrueFalseStatement 1 0 True) or2
   \<and> implies_stmt or2_store (TrueFalseStatement 1 1 True) or2"
  by code_simp

section \<open>The statement returned by randomStatement\<close>

text \<open>
  Claim C7. Every statement returned by \<open>randomStatement context maxLayer\<close> is an instance of
  a registered class whose nesting layer is at most \<open>maxLayer\<close>, and its \<open>subjectBitsArray\<close>
  holds no bit pattern twice (\<open>hasDuplicate\<close> of that array is false), for every sequence of
  draws on which the loop returns.
\<close>

theorem randomStatement_layer_and_subjects:
  assumes "randomStatement n context maxLayer w = Some (Inr s, w')"
  shows "(\<exists>c. class_of s = Some c \<and> layer_le (nestingLayer c) maxLayer)
       \<and> (\<exists>array. subjectBitsArray s = Inr array \<and> \<not> hasDuplicate array \<and> distinct array)"
proof -
  have "filter (\<lambda>c. layer_le (nestingLayer c) maxLayer) childStatementClasses \<noteq> []"
    using assms randomStatement_no_choice [of maxLayer n "context" w] by auto
  from randomStatement_choice [OF assms this] show ?thesis
    by (auto simp: produced_def hasDuplicate_iff)
qed

text \<open>
  The theorem on a run that chooses \<open>LogicalOrStatement\<close> (layer 1) with no bound on the layer.
\<close>

theorem randomStatement_layer_and_subjects_witness:
  "randomStatement 3 0 Infinity (fst world2, 7 / 10 # snd world2) = Some (Inr or2, (or2_store, []))
   \<and> class_of or2 = Some LogicalOr \<and> layer_le (nestingLayer LogicalOr) Infinity
   \<and> subjectBitsArray or2 = Inr [1, 2] \<and> \<not> hasDuplicate [1 :: int, 2]"
proof -
  have "subjectBitsArray or2 = Inr [1, 2]"
    by code_simp
  with randomStatement_layer_and_subjects [OF or2_randomStatement] or2_randomStatement
  show ?thesis
    by (auto simp: or2_def)
qed

section \<open>When randomStatement throws\<close>

text \<open>
  Claim C8. \<open>randomStatement context maxLayer\<close> throws if and only if no registered class has a
  nesting layer of at most \<open>maxLayer\<close>; with the registry of statement.js that is exactly when
  \<open>maxLayer < 0\<close>, and the error is thrown before any draw. When some class qualifies no error
  reaches the caller, whatever the draws: rejected candidates only lead to further
  iterations.
\<close>

theorem randomStatement_throws_iff:
  "((\<exists>e w'. randomStatement n context maxLayer w = Some (Inl e, w'))
      \<longleftrightarrow> (\<forall>c \<in> set childStatementClasses. \<not> layer_le (nestingLayer c) maxLayer))
   \<and> ((\<forall>c \<in> set childStatementClasses. \<not> layer_le (nestingLayer c) maxLayer)
      \<longleftrightarrow> (\<exists>k. maxLayer = Layer k \<and> k < 0))
   \<and> ((\<forall>c \<in> set childStatementClasses. \<not> layer_le (nestingLayer c) maxLayer)
      \<longrightarrow> randomStatement n context maxLayer w = Some (Inl Error, w))"
proof -
  let ?cs = "filter (\<lambda>c. layer_le (nestingLayer c) maxLayer) childStatementClasses"
  have e: "(\<forall>c \<in> set childStatementClasses. \<not> layer_le (nestingLayer c) maxLayer) \<longleftrightarrow> ?cs = []"
    by (simp add: filter_empty_conv)
  have "?cs = []" if "randomStatement n context maxLayer w = Some (Inl e, w')" for e w'
  proof (rule ccontr)
    assume "?cs \<noteq> []"
    from randomStatement_choice [OF that this] show False
      by (simp add: produced_def)
  qed
  then have "(\<exists>e w'. randomStatement n context maxLayer w = Some (Inl e, w')) \<longleftrightarrow> ?cs = []"
    using randomStatement_no_choice [of maxLayer n "context" w] by blast
  then show ?thesis
    unfolding e using no_choice [of maxLayer] randomStatement_no_choice [of maxLayer n "context" w]
    by blast
qed

text \<open>The theorem at \<open>maxLayer = -1\<close>, where it throws, and at \<open>maxLayer = 0\<close>, where it cannot.\<close>

theorem randomStatement_throws_iff_witness:
  "randomStatement 3 0 (Layer (- 1)) world2 = Some (Inl Error, world2)
   \<and> \<not> (\<exists>e w'. randomStatement 3 0 (Layer 0) world2 = Some (Inl e, w'))"
proof -
  have 1: "\<forall>c \<in> set childStatementClasses. \<not> layer_le (nestingLayer c) (Layer (- 1))"
    by (simp add: childStatementClasses_def)
  have 2: "\<not> (\<forall>c \<in> set childStatementClasses. \<not> layer_le (nestingLayer c) (Layer 0))"
    by (simp add: childStatementClasses_def)
  from randomStatement_throws_iff [of 3 0 "Layer (- 1)" world2]
    randomStatement_throws_iff [of 3 0 "Layer 0" world2] 1 2
  show ?thesis
    by blast
qed

section \<open>The caller's context is left unchanged\<close>

text \<open>
  Claim C9. \<open>randomStatement\<close> and the random constructor of every class leave the context
  object of the caller unchanged: all six fields (personCount, speakerIndex, isRoot,
  shouldUseGa, preconditionPredicate, complexityFactor) hold the same values after the call
  as before, whatever the call returns or throws. The substatements of a compound are built
  on other context objects, allocated during the call by \<open>LogicalStatementContext.from\<close>: the
  context a substatement holds is never the caller's.
\<close>

theorem random_preserves_context:
  assumes "context < length (fst w)"
  shows "(randomStatement n context maxLayer w = Some (res, w')
            \<longrightarrow> same_fields (fst w ! context) (fst w' ! context))
       \<and> (TrueFalseStatement_random context w = Some (res, w')
            \<longrightarrow> same_fields (fst w ! context) (fst w' ! context))
       \<and> (TypeCountStatement_random context w = Some (res, w')
            \<longrightarrow> same_fields (fst w ! context) (fst w' ! context))
       \<and> (LogicalAndStatement_random n context w = Some (res, w')
            \<longrightarrow> same_fields (fst w ! context) (fst w' ! context)
              \<and> (\<exists>s1 s2. res = Inr (LogicalAndStatement context s1 s2)
                    \<and> context_of s1 \<noteq> context \<and> context_of s2 \<noteq> context
                    \<and> length (fst w) \<le> context_of s1 \<and> length (fst w) \<le> context_of s2))
       \<and> (LogicalOrStatement_random n context w = Some (res, w')
            \<longrightarrow> same_fields (fst w ! context) (fst w' ! context)
              \<and> (\<exists>s1 s2. res = Inr (LogicalOrStatement context s1 s2)
                    \<and> context_of s1 \<noteq> context \<and> context_of s2 \<noteq> context
                    \<and> length (fst w) \<le> context_of s1 \<and> length (fst w) \<le> context_of s2))
       \<and> (LogicalIfStatement_random n context w = Some (res, w')
            \<longrightarrow> same_fields (fst w ! context) (fst w' ! context)
              \<and> (\<exists>s1 s2. res = Inr (LogicalIfStatement context s1 s2)
                    \<and> context_of s1 \<noteq> context \<and> context_of s2 \<noteq> context
                    \<and> length (fst w) \<le> context_of s1 \<and> length (fst w) \<le> context_of s2))"
proof -
  have k: "same_fields (fst w ! context) (fst w' ! context)" if "extends w w'" for w'
    using that assms by (auto simp: extends_def same_fields_def nth_append)
  have c: "\<exists>s1 s2. res = Inr (C context s1 s2)
                    \<and> context_of s1 \<noteq> context \<and> context_of s2 \<noteq> context
                    \<and> length (fst w) \<le> context_of s1 \<and> length (fst w) \<le> context_of s2"
    if "compound C context w res" for C
    using that assms by (fastforce simp: compound_def)
  have 1: "randomStatement n context maxLayer w = Some (res, w')
            \<longrightarrow> same_fields (fst w ! context) (fst w' ! context)"
    using k frame_randomStatement by blast
  have 2: "TrueFalseStatement_random context w = Some (res, w')
            \<longrightarrow> same_fields (fst w ! context) (fst w' ! context)"
    using k TrueFalseStatement_random_Some by blast
  have 3: "TypeCountStatement_random context w = Some (res, w')
            \<longrightarrow> same_fields (fst w ! context) (fst w' ! context)"
    using k TypeCountStatement_random_Some by blast
  have 4: "LogicalAndStatement_random n context w = Some (res, w')
            \<longrightarrow> same_fields (fst w ! context) (fst w' ! context)
              \<and> (\<exists>s1 s2. res = Inr (LogicalAndStatement context s1 s2)
                    \<and> context_of s1 \<noteq> context \<and> context_of s2 \<noteq> context
                    \<and> length (fst w) \<le> context_of s1 \<and> length (fst w) \<le> context_of s2)"
    using k c [of LogicalAndStatement] frame_And shape_And by blast
  have 5: "LogicalOrStatement_random n context w = Some (res, w')
            \<longrightarrow> same_fields (fst w ! context) (fst w' ! context)
              \<and> (\<exists>s1 s2. res = Inr (LogicalOrStatement context s1 s2)
                    \<and> context_of s1 \<noteq> context \<and> context_of s2 \<noteq> context
                    \<and> length (fst w) \<le> context_of s1 \<and> length (fst w) \<le> context_of s2)"
    using k c [of LogicalOrStatement] frame_Or shape_Or by blast
  have 6: "LogicalIfStatement_random n context w = Some (res, w')
            \<longrightarrow> same_fields (fst w ! context) (fst w' ! context)
              \<and> (\<exists>s1 s2. res = Inr (LogicalIfStatement context s1 s2)
                    \<and> context_of s1 \<noteq> context \<and> context_of s2 \<noteq> context
                    \<and> length (fst w) \<le> context_of s1 \<and> length (fst w) \<le> context_of s2)"
    using k c [of LogicalIfStatement] frame_If shape_If by blast
  from 1 2 3 4 5 6 show ?thesis
    by (intro conjI)
qed

text \<open>The theorem on the run of \<open>LogicalAndStatement.random\<close> from \<open>world2\<close>.\<close>

theorem random_preserves_context_witness:
  "0 < length (fst world2)
   \<and> LogicalAndStatement_random 3 0 world2 = Some (Inr and2, (and2_store, []))
   \<and> same_fields (fst world2 ! 0) (and2_store ! 0)"
  using random_preserves_context [of 0 world2 3 Infinity "Inr and2" "(and2_store, [])"] and2_run
  by (simp add: world2_def)

section \<open>A random count statement is informative\<close>

text \<open>
  Claim C10, as amended. Every TypeCountStatement produced by \<open>TypeCountStatement.random\<close> for a
  person count \<open>N\<close> with \<open>2 \<le> N \<le> 29\<close> (and draws in \<open>[0, 1)\<close>) is neither a tautology nor
  unsatisfiable: its subject set has at least two members, its mask \<open>liarCountBits\<close> includes
  at least one and excludes at least one count in \<open>{0 .. popcount subjectBits}\<close>, and every
  such count is realised by some assignment in \<open>[0, 2 ^ N)\<close>; so some assignment makes the
  statement true and some makes it false, and \<open>isTautology\<close> is false for the statement and for
  its negation.
\<close>

theorem TypeCountStatement_random_informative:
  assumes "TypeCountStatement_random context w = Some (Inr s, w')"
    and "2 \<le> personCount (fst w ! context)" "personCount (fst w ! context) \<le> 29"
    and "\<forall>r \<in> set (snd w). 0 \<le> r \<and> r < 1"
  shows "\<exists>subjectBits liarCountBits.
       s = TypeCountStatement context subjectBits liarCountBits
     \<and> 2 \<le> popcount subjectBits
     \<and> (\<exists>k. 0 \<le> k \<and> k \<le> popcount subjectBits \<and> bit liarCountBits (nat k))
     \<and> (\<exists>k. 0 \<le> k \<and> k \<le> popcount subjectBits \<and> \<not> bit liarCountBits (nat k))
     \<and> (\<forall>k. 0 \<le> k \<and> k \<le> popcount subjectBits \<longrightarrow>
           (\<exists>a. 0 \<le> a \<and> a < 2 ^ nat (personCount (fst w ! context))
                \<and> popcount (js_and subjectBits (js_not a)) = k))
     \<and> (\<exists>a. 0 \<le> a \<and> a < 2 ^ nat (personCount (fst w ! context)) \<and> isTrueOn s a)
     \<and> (\<exists>a. 0 \<le> a \<and> a < 2 ^ nat (personCount (fst w ! context)) \<and> \<not> isTrueOn s a)
     \<and> \<not> isTautology (fst w') s
     \<and> \<not> isTautology (fst w') (BasicLogicalNotStatement s)"
proof -
  define N where "N = personCount (fst w ! context)"
  define n where "n = nat N"
  have N: "2 \<le> N" "N \<le> 29" "0 \<le> N" "n \<le> 29"
    using assms(2,3) by (simp_all add: N_def n_def)
  have shl: "js_shl 1 N = 2 ^ n"
    unfolding n_def using N(1,2) by (intro js_shl_1) simp_all
  from TypeCountStatement_random_result [OF assms(1)] obtain used r r' where
    tape: "snd w = used @ r # r' # snd w'" and store: "fst w' = fst w"
    and big: "\<not> popcount \<lfloor>r * of_int (js_shl 1 N)\<rfloor> \<le> 1"
    and s: "s = TypeCountStatement context \<lfloor>r * of_int (js_shl 1 N)\<rfloor>
          (\<lfloor>r' * of_int (js_shl 1 (popcount \<lfloor>r * of_int (js_shl 1 N)\<rfloor> + 1) - 2)\<rfloor> + 1)"
    unfolding N_def by blast
  define sb where "sb = \<lfloor>r * of_int (js_shl 1 N)\<rfloor>"
  define c where "c = popcount sb"
  define lb where "lb = \<lfloor>r' * of_int (js_shl 1 (c + 1) - 2)\<rfloor> + 1"
  have r: "0 \<le> r" "r < 1" "0 \<le> r'" "r' < 1"
    using assms(4) tape by simp_all
  have sb: "0 \<le> sb" "sb < 2 ^ n"
    unfolding sb_def shl using floor_draw [OF r(1,2), of "2 ^ n"] by simp_all
  have cn: "c = naive_count n sb"
    unfolding c_def using sb N(4) by (intro popcount_small) simp_all
  have "\<not> c \<le> 1"
    using big by (simp add: c_def sb_def)
  moreover have "c \<le> int n"
    using naive_count_bounds [of n sb] by (simp add: cn)
  ultimately have c: "2 \<le> c" "c \<le> 29"
    using N(4) by simp_all
  define m where "m = nat (c + 1)"
  have m: "int m = c + 1" "m \<le> 30" "2 \<le> m"
    using c by (simp_all add: m_def)
  have shl': "js_shl 1 (c + 1) = 2 ^ m"
    unfolding m_def using c by (intro js_shl_1) simp_all
  have "(2 :: int) ^ 2 \<le> 2 ^ m"
    using m(3) by (intro power_increasing) simp_all
  then have M: "(0 :: int) < 2 ^ m - 2"
    by simp
  have lb: "1 \<le> lb" "lb \<le> 2 ^ m - 2"
    unfolding lb_def shl' using floor_draw [OF r(3,4) M] by simp_all
  have s': "s = TypeCountStatement context sb lb"
    by (simp add: s sb_def lb_def c_def)
  from lb have "0 < lb" "lb < 2 ^ m"
    by simp_all
  from bit_set_below [OF this] obtain j1 where j1: "j1 < m" "bit lb j1"
    by blast
  from lb have "0 \<le> lb" "lb < 2 ^ m - 1"
    by simp_all
  from bit_clear_below [OF this] obtain j0 where j0: "j0 < m" "\<not> bit lb j0"
    by blast
  have k1: "0 \<le> int j1" "int j1 \<le> c" and k0: "0 \<le> int j0" "int j0 \<le> c"
    using j1 j0 m(1) by simp_all
  have real: "\<exists>a. 0 \<le> a \<and> a < 2 ^ n \<and> popcount (js_and sb (js_not a)) = k"
    if "0 \<le> k" "k \<le> c" for k
    using sb N(4) that unfolding c_def by (intro realized_count) simp_all
  have ev: "isTrueOn s a = bit lb (nat k)"
    if "popcount (js_and sb (js_not a)) = k" "0 \<le> k" "k \<le> c" for a k
    using that c by (simp add: s' bit_test shiftCount_def)
  from real [OF k1] obtain a1 where
    a1: "0 \<le> a1" "a1 < 2 ^ n" "popcount (js_and sb (js_not a1)) = int j1"
    by blast
  from real [OF k0] obtain a0 where
    a0: "0 \<le> a0" "a0 < 2 ^ n" "popcount (js_and sb (js_not a0)) = int j0"
    by blast
  have t1: "isTrueOn s a1" and t0: "\<not> isTrueOn s a0"
    using ev [OF a1(3) k1] ev [OF a0(3) k0] j1 j0 by simp_all
  have taut: "isTautology (fst w') x \<longleftrightarrow> (\<forall>a. 0 \<le> a \<and> a < 2 ^ n \<longrightarrow> isTrueOn x a)"
    if "context_of x = context" for x
    using that by (simp add: isTautology_def isTautology_loop_iff store N_def [symmetric] shl)
  have nt: "\<not> isTautology (fst w') s" "\<not> isTautology (fst w') (BasicLogicalNotStatement s)"
    using a0 a1 t0 t1 taut [of s] taut [of "BasicLogicalNotStatement s"] by (auto simp: s')
  have p1: "\<exists>k. 0 \<le> k \<and> k \<le> popcount sb \<and> bit lb (nat k)"
    using k1 j1(2) unfolding c_def by (intro exI [of _ "int j1"]) simp
  have p0: "\<exists>k. 0 \<le> k \<and> k \<le> popcount sb \<and> \<not> bit lb (nat k)"
    using k0 j0(2) unfolding c_def by (intro exI [of _ "int j0"]) simp
  have p2: "\<forall>k. 0 \<le> k \<and> k \<le> popcount sb \<longrightarrow>
           (\<exists>a. 0 \<le> a \<and> a < 2 ^ n \<and> popcount (js_and sb (js_not a)) = k)"
    using real unfolding c_def by blast
  have p3: "\<exists>a. 0 \<le> a \<and> a < 2 ^ n \<and> isTrueOn s a"
    using a1 t1 by blast
  have p4: "\<exists>a. 0 \<le> a \<and> a < 2 ^ n \<and> \<not> isTrueOn s a"
    using a0 t0 by blast
  have p5: "2 \<le> popcount sb"
    using c(1) by (simp add: c_def)
  show ?thesis
    unfolding N_def [symmetric] n_def [symmetric]
    using s' p5 p1 p0 p2 p3 p4 nt by blast
qed

text \<open>The theorem on the run from \<open>world3\<close>, which yields "all three are liars".\<close>

theorem TypeCountStatement_random_informative_witness:
  "TypeCountStatement_random 0 world3 = Some (Inr (TypeCountStatement 0 7 8), (fst world3, []))
   \<and> 2 \<le> popcount 7
   \<and> \<not> isTautology (fst world3) (TypeCountStatement 0 7 8)
   \<and> \<not> isTautology (fst world3) (BasicLogicalNotStatement (TypeCountStatement 0 7 8))"
proof -
  have run: "TypeCountStatement_random 0 world3
             = Some (Inr (TypeCountStatement 0 7 8), (fst world3, []))"
    by code_simp
  have h: "2 \<le> personCount (fst world3 ! 0)" "personCount (fst world3 ! 0) \<le> 29"
    "\<forall>r \<in> set (snd world3). 0 \<le> r \<and> r < 1"
    by (simp_all add: world3_def speaker_def)
  from TypeCountStatement_random_informative [OF run h] run show ?thesis
    by auto
qed

text \<open>
  The claim as stated fails for \<open>N = 30\<close>: when all thirty persons are subjects,
  \<open>(1 << 31) - 2\<close> is negative, and a small positive draw gives the mask \<open>0\<close>. The resulting
  statement is true on no assignment.
\<close>

theorem TypeCountStatement_random_informative_counterexample:
  "TypeCountStatement_random 0 world30
     = Some (Inr (TypeCountStatement 0 1073741823 0), (fst world30, []))
   \<and> (\<forall>a. \<not> isTrueOn (TypeCountStatement 0 1073741823 0) a)
   \<and> isTautology (fst world30) (BasicLogicalNotStatement (TypeCountStatement 0 1073741823 0))"
proof -
  have "TypeCountStatement_random 0 world30
     = Some (Inr (TypeCountStatement 0 1073741823 0), (fst world30, []))"
    by code_simp
  moreover have "\<not> isTrueOn (TypeCountStatement 0 1073741823 0) a" for a
    by (simp add: bit_test)
  ultimately show ?thesis
    by (simp add: isTautology_def isTautology_loop_iff)
qed

section \<open>Monotonicity of the length band\<close>

text \<open>
  Claim C6. For every person count \<open>N\<close> in \<open>[2, 8]\<close> and selectors \<open>0 \<le> s \<le> s' \<le> 4\<close>, the
  minimum target length computed for \<open>s\<close> is at most the one computed for \<open>s'\<close>; the maximum
  target length is infinite for selector \<open>4\<close>, and for every selector below \<open>4\<close> it is a
  finite number, between \<open>11 * N\<close> and \<open>100 * (N - 1)\<close>. The lengths are real numbers here,
  \<open>Math.pow\<close> being the real power.
\<close>

theorem length_band_monotone:
  assumes "2 \<le> N" "N \<le> 8" "0 \<le> s" "s \<le> s'" "s' \<le> 4"
  shows "minSentenceLength N s \<le> minSentenceLength N s'
       \<and> maxSentenceLength N 4 = PlusInfinity
       \<and> (s < 4 \<longrightarrow> (\<exists>x. maxSentenceLength N s = Finite x
                          \<and> 11 * of_int N \<le> x \<and> x \<le> 100 * (of_int N - 1)))"
proof (intro conjI impI)
  show "minSentenceLength N s \<le> minSentenceLength N s'"
  proof (cases "s = 0")
    case True
    have "0 \<le> interpolatedSentenceLength N (of_int s' / 5)"
      using interp_lower [of N "of_int s' / 5"] assms by simp
    then show ?thesis
      using True by (simp add: minSentenceLength_def)
  next
    case False
    then have "s' \<noteq> 0" using assms by simp
    then show ?thesis
      using False assms interp_mono [of N "of_int s / 5" "of_int s' / 5"]
      by (simp add: minSentenceLength_def)
  qed
  show "maxSentenceLength N 4 = PlusInfinity"
    by (simp add: maxSentenceLength_def)
  show "\<exists>x. maxSentenceLength N s = Finite x
          \<and> 11 * of_int N \<le> x \<and> x \<le> 100 * (of_int N - 1)" if "s < 4"
  proof -
    have "(of_int s + 1) / 5 \<le> (1::real)" "0 \<le> (of_int s + 1) / (5::real)"
      using that assms(3) by simp_all
    then show ?thesis
      using that assms(1) interp_lower [of N "(of_int s + 1) / 5"]
        interp_upper [of N "(of_int s + 1) / 5"]
      by (simp add: maxSentenceLength_def)
  qed
qed

text \<open>The theorem at four persons and the selectors \<open>1\<close> and \<open>2\<close>.\<close>

theorem length_band_monotone_witness:
  "minSentenceLength 4 1 \<le> minSentenceLength 4 2
   \<and> maxSentenceLength 4 4 = PlusInfinity
   \<and> (\<exists>x. maxSentenceLength 4 1 = Finite x \<and> 44 \<le> x \<and> x \<le> 300)"
  using length_band_monotone [of 4 1 2] by simp

section \<open>The regeneration loop\<close>

text \<open>
  Claim C5. Let the handler be at the head of its loop, in the state that the code before
  the loop establishes (\<open>loop_state\<close>), with one context for each of the \<open>count\<close> speakers,
  \<open>0 < count < 2 ^ 32\<close>.

  An accepted state ends the loop at once, with that state. If the loop breaks out with the
  puzzle \<open>p'\<close>, then \<open>p'\<close> is again such a state, the solver's
  output for the final statements has exactly one assignment, \<open>sentences\<close> holds the
  renderings of the final statements, and the sum of their lengths lies between the minimum
  \<open>lo\<close> and the maximum \<open>hi\<close>.

  If the state is not accepted and the next draw \<open>r\<close> is a double in \<open>[0, 1)\<close>, that is, at
  most \<open>1 - 2 ^ -53\<close>, the iteration selects the index \<open>i = floor (r * count)\<close>, the product
  being rounded to a double, and \<open>i\<close> lies within the arrays. The iteration returns exactly
  when \<open>randomStatement\<close> for the context of speaker \<open>i\<close> does. If that call has not returned,
  neither has the iteration nor the loop. If it returns, it returns a statement and not an
  error, the statement has a rendering, and the iteration leaves the state in which the
  statement at the index \<open>i\<close> is replaced by the new one and the sentence at \<open>i\<close> by its
  rendering, all other entries are as they were, and \<open>solutions\<close> is the solver's output for
  the new list; this is again a state of the loop head, and the loop goes on from it.

  The index is chosen uniformly in this sense: every draw in
  \<open>[k / count, (k + 1) / (count * (1 + 2 ^ -53)))\<close> selects the speaker \<open>k\<close>, and only draws in
  \<open>[k / (count * (1 + 2 ^ -53)), (k + 1) / count)\<close> do. Up to the rounding of the product this
  is the interval \<open>[k / count, (k + 1) / count)\<close>, of the same length for every speaker.
\<close>

theorem assembler_loop:
  assumes "int (length statementContexts) = count" and "0 < count" and "count < 2 ^ 32"
    and "loop_state (fst w) statementContexts p"
  shows "(accepted lo hi p \<longrightarrow>
            generate_loop n count lo hi statementContexts p w = Some (Inr p, w))
       \<and> (generate_loop n count lo hi statementContexts p w = Some (Inr p', w') \<longrightarrow>
            loop_state (fst w') statementContexts p'
          \<and> length (solutionsTo (fst w') (statements_var p')) = 1
          \<and> map (sentence (fst w')) (statements_var p') = map Inr (sentences_var p')
          \<and> lo \<le> real (sum_list (map length (sentences_var p')))
          \<and> le_bound (real (sum_list (map length (sentences_var p')))) hi)
       \<and> (\<not> accepted lo hi p \<longrightarrow> snd w = r # tape \<longrightarrow> 0 \<le> r \<longrightarrow> r \<le> 1 - 1 / 2 ^ 53
            \<longrightarrow> i = nat \<lfloor>double (r * of_int count)\<rfloor> \<longrightarrow>
            i < length (statements_var p)
          \<and> (\<forall>k. (real k / of_int count \<le> r \<and> r * (1 + 1 / 2 ^ 53) < (real k + 1) / of_int count
                   \<longrightarrow> i = k)
                \<and> (i = k
                   \<longrightarrow> real k / of_int count \<le> r * (1 + 1 / 2 ^ 53)
                     \<and> r < (real k + 1) / of_int count))
          \<and> (randomStatement m (statementContexts ! i) Infinity (fst w, tape) = None \<longrightarrow>
                regenerate m count statementContexts p w = None
              \<and> generate_loop (Suc m) count lo hi statementContexts p w = None)
          \<and> (randomStatement m (statementContexts ! i) Infinity (fst w, tape) = Some (res, w1) \<longrightarrow>
               (\<exists>statement text.
                  res = Inr statement
                \<and> sentence (fst w1) statement = Inr text
                \<and> regenerate m count statementContexts p w
                    = Some (Inr (replaced (fst w1) p i statement text), w1)
                \<and> loop_state (fst w1) statementContexts (replaced (fst w1) p i statement text)
                \<and> generate_loop (Suc m) count lo hi statementContexts p w
                    = generate_loop m count lo hi statementContexts
                        (replaced (fst w1) p i statement text) w1)))"
proof (intro conjI impI)
  assume "accepted lo hi p"
  then show "generate_loop n count lo hi statementContexts p w = Some (Inr p, w)"
    by (rule generate_loop_break)
next
  assume run: "generate_loop n count lo hi statementContexts p w = Some (Inr p', w')"
  then show st: "loop_state (fst w') statementContexts p'"
    using assms(4) by (rule generate_loop_state)
  then show "map (sentence (fst w')) (statements_var p') = map Inr (sentences_var p')"
    by (simp add: loop_state_def)
  from generate_loop_accepted [OF run] st
  show "length (solutionsTo (fst w') (statements_var p')) = 1"
    and "lo \<le> real (sum_list (map length (sentences_var p')))"
    and "le_bound (real (sum_list (map length (sentences_var p')))) hi"
    by (simp_all add: accepted_def loop_state_def sumOfSentenceLengths_sum)
next
  assume na: "\<not> accepted lo hi p" and t: "snd w = r # tape" and r: "0 \<le> r" "r \<le> 1 - 1 / 2 ^ 53"
    and i: "i = nat \<lfloor>double (r * of_int count)\<rfloor>"
  have c53: "count \<le> 2 ^ 53"
    using assms(3) by simp
  from index_in_range [OF r assms(2) c53]
  have range: "0 \<le> \<lfloor>double (r * of_int count)\<rfloor>" "\<lfloor>double (r * of_int count)\<rfloor> < int (length statementContexts)"
    by (simp_all add: assms(1))
  then have il: "i < length statementContexts" and ii: "int i = \<lfloor>double (r * of_int count)\<rfloor>"
    unfolding i by linarith+
  show "i < length (statements_var p)"
    using il assms(4) by (simp add: loop_state_def)
  show "\<forall>k. (real k / of_int count \<le> r \<and> r * (1 + 1 / 2 ^ 53) < (real k + 1) / of_int count
                   \<longrightarrow> i = k)
                \<and> (i = k
                   \<longrightarrow> real k / of_int count \<le> r * (1 + 1 / 2 ^ 53)
                     \<and> r < (real k + 1) / of_int count)"
  proof
    fix k
    have "(i = k) = (\<lfloor>double (r * of_int count)\<rfloor> = int k)"
      using ii by auto
    with index_uniform [OF r assms(2) c53, of "int k"]
    show "(real k / of_int count \<le> r \<and> r * (1 + 1 / 2 ^ 53) < (real k + 1) / of_int count
                   \<longrightarrow> i = k)
                \<and> (i = k
                   \<longrightarrow> real k / of_int count \<le> r * (1 + 1 / 2 ^ 53)
                     \<and> r < (real k + 1) / of_int count)"
      by simp
  qed
  note u = regenerate_unfold [OF t i range, of m p]
  have g: "generate_loop (Suc m) count lo hi statementContexts p w
            = andThen (regenerate m count statementContexts p w)
                (generate_loop m count lo hi statementContexts)"
    using na by (subst generate_loop.simps) simp
  {
    assume "randomStatement m (statementContexts ! i) Infinity (fst w, tape) = None"
    then show n1: "regenerate m count statementContexts p w = None"
      unfolding u by simp
    show "generate_loop (Suc m) count lo hi statementContexts p w = None"
      unfolding g n1 by simp
  }
  {
    assume rs: "randomStatement m (statementContexts ! i) Infinity (fst w, tape) = Some (res, w1)"
    from randomStatement_returns_statement [OF rs] obtain statement
      where s: "res = Inr statement" "renderable statement"
      by blast
    from assms(4) have cs: "list_all (\<lambda>c. c < length (fst w)) statementContexts"
      and pc: "list_all (\<lambda>c. 0 \<le> personCount c \<and> personCount c < 2 ^ 32) (fst w)"
      by (simp_all add: loop_state_def)
    from cs il have c: "statementContexts ! i < length (fst (fst w, tape))"
      by (simp add: list_all_length)
    note rs' = rs [unfolded s(1)]
    from allocated_randomStatement [OF rs' c] have a: "allocated (fst w1) statement" .
    from personCounts_randomStatement [OF rs' c] pc
    have "\<forall>n \<in> personCounts (fst w1). 0 \<le> n \<and> n < 2 ^ 32"
      by (simp only: counts_iff fst_conv)
    from sentence_returns [OF s(2) a this] obtain t1 where t1: "sentence (fst w1) statement = Inr t1"
      by blast
    have reg: "regenerate m count statementContexts p w
                    = Some (Inr (replaced (fst w1) p i statement t1), w1)"
      unfolding u rs' by (simp add: t1)
    have st1: "loop_state (fst w1) statementContexts (replaced (fst w1) p i statement t1)"
      using assms(4) il rs' t1 by (rule loop_state_step)
    have "generate_loop (Suc m) count lo hi statementContexts p w
                    = generate_loop m count lo hi statementContexts
                        (replaced (fst w1) p i statement t1) w1"
      unfolding g reg by simp
    with s(1) t1 reg st1
    show "\<exists>statement text.
                  res = Inr statement
                \<and> sentence (fst w1) statement = Inr text
                \<and> regenerate m count statementContexts p w
                    = Some (Inr (replaced (fst w1) p i statement text), w1)
                \<and> loop_state (fst w1) statementContexts (replaced (fst w1) p i statement text)
                \<and> generate_loop (Suc m) count lo hi statementContexts p w
                    = generate_loop m count lo hi statementContexts
                        (replaced (fst w1) p i statement text) w1"
      by blast
  }
qed

text \<open>
  The theorem at the puzzle of two speakers who call each other truth-tellers, with the
  bounds \<open>25\<close> and \<open>40\<close> and the draws \<open>3 / 4, 1 / 4, 7 / 8, 1 / 4\<close>: the iteration selects the
  second speaker, returns with that speaker's statement replaced by a count statement, and the loop
  ends at once with this puzzle, which is accepted: its only solution is the assignment \<open>0\<close>.
\<close>

theorem assembler_loop_witness:
  "loop_state stores5 [0, 1] puzzle5'
   \<and> length (solutionsTo stores5 (statements_var puzzle5')) = 1
   \<and> map (sentence stores5) (statements_var puzzle5') = map Inr (sentences_var puzzle5')
   \<and> 25 \<le> real (sum_list (map length (sentences_var puzzle5')))
   \<and> le_bound (real (sum_list (map length (sentences_var puzzle5')))) (Finite 40)
   \<and> 1 < length (statements_var puzzle5)
   \<and> sentence stores5 (TypeCountStatement 1 3 2) = Inr (sentences_var puzzle5' ! 1)
   \<and> replaced stores5 puzzle5 1 (TypeCountStatement 1 3 2) (sentences_var puzzle5' ! 1) = puzzle5'
   \<and> regenerate 2 2 [0, 1] puzzle5 world5 = Some (Inr puzzle5', (stores5, []))
   \<and> generate_loop (Suc 2) 2 25 (Finite 40) [0, 1] puzzle5 world5
       = generate_loop 2 2 25 (Finite 40) [0, 1] puzzle5' (stores5, [])
   \<and> generate_loop 2 2 25 (Finite 40) [0, 1] puzzle5' (stores5, [])
       = Some (Inr puzzle5', (stores5, []))"
proof -
  have a: "int (length [0::nat, 1]) = 2" "(0::int) < 2" "(2::int) < 2 ^ 32"
    by simp_all
  note T = assembler_loop [where statementContexts = "[0, 1]" and count = 2 and w = world5
      and p = puzzle5 and n = 3 and lo = 25 and hi = "Finite 40" and p' = puzzle5'
      and w' = "(stores5, [])" and r = "3 / 4" and tape = "[1 / 4, 7 / 8, 1 / 4]" and i = 1
      and m = 2 and res = "Inr (TypeCountStatement 1 3 2)" and ?w1.0 = "(stores5, [])",
      OF a puzzle5_state]
  from T [THEN conjunct2, THEN conjunct1, rule_format, OF puzzle5_run]
  have 1: "loop_state stores5 [0, 1] puzzle5'
   \<and> length (solutionsTo stores5 (statements_var puzzle5')) = 1
   \<and> map (sentence stores5) (statements_var puzzle5') = map Inr (sentences_var puzzle5')
   \<and> 25 \<le> real (sum_list (map length (sentences_var puzzle5')))
   \<and> le_bound (real (sum_list (map length (sentences_var puzzle5')))) (Finite 40)"
    by simp
  have h: "snd world5 = 3 / 4 # [1 / 4, 7 / 8, 1 / 4]" "(0::real) \<le> 3 / 4"
    "(3::real) / 4 \<le> 1 - 1 / 2 ^ 53" "1 = nat \<lfloor>double (3 / 4 * real_of_int 2)\<rfloor>"
    using puzzle5_index by (simp_all add: world5_def)
  note T2 = T [THEN conjunct2, THEN conjunct2, rule_format, OF puzzle5_not_accepted h]
  from T2 have 2: "1 < length (statements_var puzzle5)"
    by (rule conjunct1)
  have "randomStatement 2 ([0, 1] ! 1) Infinity (fst world5, [1 / 4, 7 / 8, 1 / 4]) =
      Some (Inr (TypeCountStatement 1 3 2), (stores5, []))"
    using puzzle5_statement by (simp add: world5_def)
  from T2 [THEN conjunct2, THEN conjunct2, THEN conjunct2, rule_format, OF this]
  obtain t1 where t: "sentence stores5 (TypeCountStatement 1 3 2) = Inr t1"
    and r: "regenerate 2 2 [0, 1] puzzle5 world5
           = Some (Inr (replaced stores5 puzzle5 1 (TypeCountStatement 1 3 2) t1), (stores5, []))"
    and g: "generate_loop (Suc 2) 2 25 (Finite 40) [0, 1] puzzle5 world5
           = generate_loop 2 2 25 (Finite 40) [0, 1]
               (replaced stores5 puzzle5 1 (TypeCountStatement 1 3 2) t1) (stores5, [])"
    by auto
  from t puzzle5_sentence have e: "t1 = sentences_var puzzle5' ! 1"
    by simp
  note p = puzzle5_replaced
  from 1 have "loop_state (fst (stores5, [])) [0, 1] puzzle5'"
    by simp
  from assembler_loop [where statementContexts = "[0, 1]" and count = 2 and w = "(stores5, [])"
      and p = puzzle5' and n = 2 and lo = 25 and hi = "Finite 40", OF a this,
      THEN conjunct1, rule_format, OF puzzle5_accepted]
  have b: "generate_loop 2 2 25 (Finite 40) [0, 1] puzzle5' (stores5, [])
       = Some (Inr puzzle5', (stores5, []))" .
  from 1 2 puzzle5_sentence p r [unfolded e p] g [unfolded e p] b show ?thesis
    by blast
qed
end
